theory Spec2Isabelle
  imports
    Complex_Main
    "HOL-Library.Char_ord"
    "HOL-Library.List_Lexorder"
    "HOL-Library.Product_Lexorder"
    "HOL-Library.Sublist"
    "HOL-Library.AList"
    "HOL-Library.Multiset"
begin

section \<open>iCount cross-link site quantification (\<^verbatim>\<open>iCount/mapping/xlsites.py\<close>)\<close>

text \<open>
  A shallow embedding of the grouping, merging and quantification functions of
  \<^verbatim>\<open>xlsites.py\<close>. Python dictionaries are association lists in insertion order
  (\<open>map_of\<close> reads a key, \<open>AList.update\<close> assigns it, keeping the position of a key
  that is already there and appending a new one) and exceptions are values of the type
  \<open>error\<close>. Python's floats round, and HOL has no such numbers: \<^verbatim>\<open>_collapse\<close> is
  given twice, with the float operations as parameters (\<open>collapse_float\<close>), which is the
  code for any float arithmetic, and in the exact arithmetic of the rationals
  (\<open>collapse\<close>), which is the first with the operations of the rationals and is used
  where only the divisors, the errors and the shape of the tables matter.
\<close>

subsection \<open>Errors\<close>

datatype error =
    NHTagNotSet          \<comment> \<open>\<^verbatim>\<open>raise ValueError('"NH" tag not set for record: ...')\<close>\<close>
  | ValueError           \<comment> \<open>\<^verbatim>\<open>list.index\<close> of a value that is not in the list\<close>
  | IndexError           \<comment> \<open>list index out of range\<close>
  | KeyError             \<comment> \<open>a dictionary read or \<^verbatim>\<open>pop\<close> of a missing key\<close>
  | ZeroDivisionError    \<comment> \<open>\<^verbatim>\<open>/\<close> with a zero divisor\<close>

subsection \<open>Strings\<close>

text \<open>
  Read names of an alignment file are printable ASCII, so \<^verbatim>\<open>str.upper\<close> is the ASCII
  one: a letter \<^verbatim>\<open>a\<close>..\<^verbatim>\<open>z\<close> loses bit 5, every other character stays.
\<close>

definition upper_char :: "char \<Rightarrow> char" where
  "upper_char c =
     (if CHR ''a'' \<le> c \<and> c \<le> CHR ''z''
      then Char (digit0 c) (digit1 c) (digit2 c) (digit3 c) (digit4 c) False (digit6 c) (digit7 c)
      else c)"

definition upper :: "string \<Rightarrow> string" where
  "upper s = map upper_char s"

subsection \<open>\<^verbatim>\<open>_match\<close>\<close>

text \<open>
  \<^verbatim>\<open>
  s1, s2 = s1.upper(), s2.upper()
  cn = sum([(c1 == 'N' or c2 == 'N' or c1 == c2) for c1, c2 in zip(s1, s2)])
  return max(len(s1), len(s2)) - cn <= mismatches
  \<close>
\<close>

definition match :: "string \<Rightarrow> string \<Rightarrow> int \<Rightarrow> bool" where
  "match s1 s2 mismatches =
     (let s1 = upper s1; s2 = upper s2;
          cn = length (filter (\<lambda>(c1, c2). c1 = CHR ''N'' \<or> c2 = CHR ''N'' \<or> c1 = c2) (zip s1 s2))
      in int (max (length s1) (length s2)) - int cn \<le> mismatches)"

text \<open>
  The comparison as the specification words it: the longer length, minus the number of
  positions below the shorter length where the upper-cased characters agree or one of
  them is the wildcard, is at most the threshold.
\<close>

definition agree_at :: "string \<Rightarrow> string \<Rightarrow> nat \<Rightarrow> bool" where
  "agree_at s1 s2 i =
     (upper_char (s1 ! i) = upper_char (s2 ! i)
      \<or> upper_char (s1 ! i) = CHR ''N'' \<or> upper_char (s2 ! i) = CHR ''N'')"

definition match_spec :: "string \<Rightarrow> string \<Rightarrow> int \<Rightarrow> bool" where
  "match_spec s1 s2 m =
     (int (max (length s1) (length s2))
        - int (length (filter (agree_at s1 s2) [0..<min (length s1) (length s2)])) \<le> m)"

subsection \<open>Hits and barcode groups\<close>

text \<open>
  A hit is the tuple \<^verbatim>\<open>(middle_pos, end_pos, read_len, num_mapped, second_start)\<close>;
  \<^verbatim>\<open>by_bc\<close> is the dictionary from a barcode to the list of its hits.
\<close>

type_synonym hit = "int \<times> int \<times> int \<times> int \<times> int"
type_synonym by_bc = "(string \<times> hit list) list"

text \<open>
  \<^verbatim>\<open>by_bc[bc].extend(by_bc.pop(bc2))\<close>: the list of \<^verbatim>\<open>bc\<close> is read first, then
  \<^verbatim>\<open>bc2\<close> is popped, and its hits are appended to that list. Either key missing is a
  \<^verbatim>\<open>KeyError\<close>.
\<close>

definition extend_pop :: "string \<Rightarrow> string \<Rightarrow> by_bc \<Rightarrow> error + by_bc" where
  "extend_pop bc bc2 d =
     (case map_of d bc of
        None \<Rightarrow> Inl KeyError
      | Some _ \<Rightarrow>
          (case map_of d bc2 of
             None \<Rightarrow> Inl KeyError
           | Some hits2 \<Rightarrow> Inr (AList.map_entry bc (\<lambda>hits. hits @ hits2) (AList.delete bc2 d))))"

text \<open>
  The keys of a barcode group, a group in which no two distinct barcodes match, and all
  the hits of a group.
\<close>

definition keys :: "by_bc \<Rightarrow> string list" where
  "keys d = map fst d"

definition no_match :: "int \<Rightarrow> by_bc \<Rightarrow> bool" where
  "no_match m d = (\<forall>k1 \<in> set (keys d). \<forall>k2 \<in> set (keys d). k1 \<noteq> k2 \<longrightarrow> \<not> match k1 k2 m)"


definition hits_of :: "by_bc \<Rightarrow> hit set" where
  "hits_of d = \<Union> (set ` snd ` set d)"

subsection \<open>\<^verbatim>\<open>_merge_similar_randomers\<close>\<close>

text \<open>
  Step 0 splits the keys into the accepted barcodes (no \<^verbatim>\<open>N\<close>) and the ambiguous
  ones, paired with their number of \<^verbatim>\<open>N\<close>s. \<^verbatim>\<open>sorted(..., reverse=True)\<close> of
  (length, barcode) pairs is the reversed ascending sort: the pairs of distinct keys are
  distinct, and Python compares tuples, and strings, lexicographically.
\<close>

definition count_N :: "string \<Rightarrow> nat" where
  "count_N barcode = length (filter (\<lambda>c. c = CHR ''N'') barcode)"

definition accepted_init :: "by_bc \<Rightarrow> string set" where
  "accepted_init d = set (filter (\<lambda>barcode. count_N barcode = 0) (map fst d))"

definition ambig_init :: "by_bc \<Rightarrow> (nat \<times> string) list" where
  "ambig_init d =
     map (\<lambda>barcode. (count_N barcode, barcode)) (filter (\<lambda>barcode. count_N barcode \<noteq> 0) (map fst d))"

definition order_bcs :: "by_bc \<Rightarrow> (nat \<times> string) list" where
  "order_bcs d = rev (sort (map (\<lambda>(bc, hits). (length hits, bc)) d))"

text \<open>
  Step 1: every ambiguous barcode, in ascending order of (number of \<^verbatim>\<open>N\<close>s, barcode),
  is moved into the first matching accepted barcode in descending order of frequency,
  or accepted itself when none matches.
\<close>

fun first_match :: "int \<Rightarrow> string \<Rightarrow> (nat \<times> string) list \<Rightarrow> string option" where
  "first_match m amb_bc [] = None"
| "first_match m amb_bc ((_, bc) # rest) =
     (if match bc amb_bc m then Some bc else first_match m amb_bc rest)"

definition assign_ambiguous ::
  "int \<Rightarrow> string \<Rightarrow> string set \<times> by_bc \<Rightarrow> error + (string set \<times> by_bc)" where
  "assign_ambiguous m amb_bc st =
     (case st of (accepted_bcs, d) \<Rightarrow>
        (case first_match m amb_bc (order_bcs (filter (\<lambda>(bc, hits). bc \<in> accepted_bcs) d)) of
           Some bc \<Rightarrow>
             (case extend_pop bc amb_bc d of
                Inl e \<Rightarrow> Inl e
              | Inr d' \<Rightarrow> Inr (accepted_bcs, d'))
         | None \<Rightarrow> Inr (insert amb_bc accepted_bcs, d)))"

fun step1 :: "int \<Rightarrow> (nat \<times> string) list \<Rightarrow> string set \<times> by_bc \<Rightarrow> error + (string set \<times> by_bc)" where
  "step1 m [] st = Inr st"
| "step1 m ((_, amb_bc) # rest) st =
     (case assign_ambiguous m amb_bc st of
        Inl e \<Rightarrow> Inl e
      | Inr st' \<Rightarrow> step1 m rest st')"

text \<open>
  Step 2: one pass scans the barcodes in descending frequency; the first barcode that
  matches a later one takes the hits of every later barcode it matches, and the pass
  stops there. Passes repeat until one merges nothing.
\<close>

fun merge_into :: "int \<Rightarrow> string \<Rightarrow> (nat \<times> string) list \<Rightarrow> bool \<times> by_bc \<Rightarrow> error + (bool \<times> by_bc)" where
  "merge_into m bc [] st = Inr st"
| "merge_into m bc ((_, bc2) # rest) (merged, d) =
     (if match bc bc2 m
      then (case extend_pop bc bc2 d of
              Inl e \<Rightarrow> Inl e
            | Inr d' \<Rightarrow> merge_into m bc rest (True, d'))
      else merge_into m bc rest (merged, d))"

fun scan_pairs :: "int \<Rightarrow> (nat \<times> string) list \<Rightarrow> by_bc \<Rightarrow> error + (bool \<times> by_bc)" where
  "scan_pairs m [] d = Inr (False, d)"
| "scan_pairs m ((_, bc) # rest) d =
     (case merge_into m bc rest (False, d) of
        Inl e \<Rightarrow> Inl e
      | Inr (merged, d') \<Rightarrow> if merged then Inr (True, d') else scan_pairs m rest d')"

text \<open>Each merging pass removes a key, which is why the loop of step 2 ends.\<close>

lemma length_map_entry: "length (AList.map_entry k f xs) = length xs"
  by (induction xs) auto

lemma extend_pop_length: "extend_pop bc bc2 d = Inr d' \<Longrightarrow> length d' < length d"
proof -
  assume a: "extend_pop bc bc2 d = Inr d'"
  then obtain hits2 where h: "map_of d bc2 = Some hits2"
    and d': "d' = AList.map_entry bc (\<lambda>hits. hits @ hits2) (AList.delete bc2 d)"
    by (auto simp: extend_pop_def split: option.splits)
  from h have "bc2 \<in> set (map fst d)" by (metis map_of_eq_None_iff option.distinct(1) set_map)
  then have "length (removeAll bc2 (map fst d)) < length (map fst d)"
    by (rule length_removeAll_less)
  then have "length (AList.delete bc2 d) < length d"
    by (metis AList.delete_keys length_map)
  with d' show ?thesis by (simp add: length_map_entry)
qed

lemma merge_into_length:
  "merge_into m bc rest (merged, d) = Inr (merged', d') \<Longrightarrow>
   (if merged' \<and> \<not> merged then length d' < length d else d' = d \<or> length d' < length d)"
proof (induction rest arbitrary: merged d)
  case Nil
  then show ?case by auto
next
  case (Cons a rest)
  obtain n bc2 where a: "a = (n, bc2)" by (cases a)
  show ?case
  proof (cases "match bc bc2 m")
    case True
    with Cons.prems a obtain d1 where e: "extend_pop bc bc2 d = Inr d1"
      and r: "merge_into m bc rest (True, d1) = Inr (merged', d')"
      by (auto split: sum.splits)
    from Cons.IH [OF r] extend_pop_length [OF e] show ?thesis by (auto split: if_splits)
  next
    case False
    with Cons.prems a have "merge_into m bc rest (merged, d) = Inr (merged', d')" by simp
    from Cons.IH [OF this] show ?thesis .
  qed
qed

lemma scan_pairs_length:
  "scan_pairs m ks d = Inr (True, d') \<Longrightarrow> length d' < length d"
proof (induction ks arbitrary: d)
  case Nil
  then show ?case by simp
next
  case (Cons a ks)
  obtain n bc where a: "a = (n, bc)" by (cases a)
  from Cons.prems a obtain mg d1 where mi: "merge_into m bc ks (False, d) = Inr (mg, d1)"
    and rest: "(if mg then Inr (True, d1) else scan_pairs m ks d1) = Inr (True, d')"
    by (auto split: sum.splits)
  show ?case
  proof (cases mg)
    case True
    with rest have "d1 = d'" by simp
    with merge_into_length [OF mi] True show ?thesis by simp
  next
    case False
    with rest have "scan_pairs m ks d1 = Inr (True, d')" by simp
    from Cons.IH [OF this] merge_into_length [OF mi] False show ?thesis by auto
  qed
qed

function step2 :: "int \<Rightarrow> by_bc \<Rightarrow> error + by_bc" where
  "step2 m d =
     (case scan_pairs m (order_bcs d) d of
        Inl e \<Rightarrow> Inl e
      | Inr (merged, d') \<Rightarrow> if merged then step2 m d' else Inr d')"
  by pat_completeness auto
termination
  by (relation "measure (\<lambda>(m, d). length d)") (auto dest: scan_pairs_length)

definition merge_similar_randomers :: "by_bc \<Rightarrow> int \<Rightarrow> error + by_bc" where
  "merge_similar_randomers by_bc mismatches =
     (case step1 mismatches (sort (ambig_init by_bc)) (accepted_init by_bc, by_bc) of
        Inl e \<Rightarrow> Inl e
      | Inr (_, d) \<Rightarrow> step2 mismatches d)"


subsection \<open>\<^verbatim>\<open>_collapse\<close>\<close>

fun read_len :: "hit \<Rightarrow> int" where
  "read_len (middle_pos, end_pos, rl, nm, ss) = rl"

fun num_mapped :: "hit \<Rightarrow> int" where
  "num_mapped (middle_pos, end_pos, rl, nm, ss) = nm"

fun second_start_of :: "hit \<Rightarrow> int" where
  "second_start_of (middle_pos, end_pos, rl, nm, ss) = ss"

text \<open>
  A \<^verbatim>\<open>for\<close> loop whose body may raise: the state is threaded through the items, and
  the first error ends the loop.
\<close>

fun for_each :: "('a \<Rightarrow> 's \<Rightarrow> error + 's) \<Rightarrow> 'a list \<Rightarrow> 's \<Rightarrow> error + 's" where
  "for_each body [] s = Inr s"
| "for_each body (x # xs) s =
     (case body x s of
        Inl e \<Rightarrow> Inl e
      | Inr s' \<Rightarrow> for_each body xs s')"

type_synonym counts = "(int \<times> rat \<times> int) list"

text \<open>
  \<^verbatim>\<open>counts\<close> maps a position to the pair (cDNA weight, number of reads).
  \<^verbatim>\<open>['start', 'middle', 'end'].index(group_by)\<close> raises \<^verbatim>\<open>ValueError\<close> for any other
  string.
\<close>

definition group_index :: "string \<Rightarrow> error + nat" where
  "group_index group_by =
     (if group_by = ''start'' then Inr 0
      else if group_by = ''middle'' then Inr 1
      else if group_by = ''end'' then Inr 2
      else Inl ValueError)"

definition select_pos :: "nat \<Rightarrow> int \<Rightarrow> int \<Rightarrow> int \<Rightarrow> int" where
  "select_pos gi xlink_pos middle_pos end_pos =
     (if gi = 0 then xlink_pos else if gi = 1 then middle_pos else end_pos)"

text \<open>\<^verbatim>\<open>ss_groups.setdefault(read[4], []).append(read)\<close>, for every hit of a barcode.\<close>

definition setdefault_append :: "hit \<Rightarrow> (int \<times> hit list) list \<Rightarrow> (int \<times> hit list) list" where
  "setdefault_append read ss_groups =
     (case map_of ss_groups (second_start_of read) of
        None \<Rightarrow> ss_groups @ [(second_start_of read, [read])]
      | Some _ \<Rightarrow> AList.map_entry (second_start_of read) (\<lambda>group. group @ [read]) ss_groups)"

definition separate_by_second_starts :: "hit list \<Rightarrow> (int \<times> hit list) list" where
  "separate_by_second_starts hits = fold setdefault_append hits []"

definition sum_len_per_barcode :: "int \<Rightarrow> hit list \<Rightarrow> int" where
  "sum_len_per_barcode multimax ss_group =
     sum_list (map read_len (filter (\<lambda>i. num_mapped i \<le> multimax) ss_group))"

text \<open>
  The body of the innermost loop: a hit mapped to more than \<^verbatim>\<open>multimax\<close> places is
  skipped; otherwise \<^verbatim>\<open>w = read_len / (num_mapped * sum_len_per_barcode)\<close> (a true
  division, which raises on a zero divisor) and one read are added at the selected
  position. Here the quotient and the sums are exact; the definitions with the float
  operations follow.
\<close>

definition count_hit :: "int \<Rightarrow> nat \<Rightarrow> int \<Rightarrow> int \<Rightarrow> hit \<Rightarrow> counts \<Rightarrow> error + counts" where
  "count_hit xlink_pos gi multimax sum_len h counts =
     (case h of (middle_pos, end_pos, rl, nm, _) \<Rightarrow>
        if nm > multimax then Inr counts
        else if nm * sum_len = 0 then Inl ZeroDivisionError
        else
          let grp_pos = select_pos gi xlink_pos middle_pos end_pos;
              w = (of_int rl :: rat) / of_int (nm * sum_len);
              current_values = (case map_of counts grp_pos of None \<Rightarrow> (0, 0) | Some v \<Rightarrow> v)
          in Inr (AList.update grp_pos (fst current_values + w, snd current_values + 1) counts))"

definition collapse_ss_group :: "int \<Rightarrow> nat \<Rightarrow> int \<Rightarrow> hit list \<Rightarrow> counts \<Rightarrow> error + counts" where
  "collapse_ss_group xlink_pos gi multimax ss_group counts =
     for_each (count_hit xlink_pos gi multimax (sum_len_per_barcode multimax ss_group)) ss_group counts"

definition collapse_barcode :: "int \<Rightarrow> nat \<Rightarrow> int \<Rightarrow> string \<times> hit list \<Rightarrow> counts \<Rightarrow> error + counts" where
  "collapse_barcode xlink_pos gi multimax item counts =
     for_each (collapse_ss_group xlink_pos gi multimax)
       (map snd (separate_by_second_starts (snd item))) counts"

definition collapse :: "int \<Rightarrow> by_bc \<Rightarrow> string \<Rightarrow> int \<Rightarrow> error + counts" where
  "collapse xlink_pos by_bc group_by multimax =
     (case group_index group_by of
        Inl e \<Rightarrow> Inl e
      | Inr gi \<Rightarrow> for_each (collapse_barcode xlink_pos gi multimax) by_bc [])"








text \<open>
  What a table holds in total, the hits of a sub-group that are counted, and the weight
  of one of them.
\<close>

definition total_cdna :: "counts \<Rightarrow> rat" where
  "total_cdna counts = sum_list (map (\<lambda>(pos, cdna, reads). cdna) counts)"

definition total_reads :: "counts \<Rightarrow> int" where
  "total_reads counts = sum_list (map (\<lambda>(pos, cdna, reads). reads) counts)"



subsection \<open>\<^verbatim>\<open>_update\<close>\<close>

text \<open>
  \<^verbatim>\<open>
  for pos, vals_to_add in to_add.items():
      prev_vals = cur_vals.get(pos, [0]*len(vals_to_add))
      cur_vals[pos] = [p + n for p, n in zip(prev_vals, vals_to_add)]
  \<close>
  The values are the pairs (cDNA weight, number of reads) of \<^verbatim>\<open>_collapse\<close>.
\<close>

definition vals_at :: "counts \<Rightarrow> int \<Rightarrow> rat \<times> int" where
  "vals_at cur_vals pos = (case map_of cur_vals pos of None \<Rightarrow> (0, 0) | Some v \<Rightarrow> v)"

definition add_vals :: "rat \<times> int \<Rightarrow> rat \<times> int \<Rightarrow> rat \<times> int" where
  "add_vals prev_vals vals_to_add =
     (fst prev_vals + fst vals_to_add, snd prev_vals + snd vals_to_add)"

definition update_entry :: "int \<times> rat \<times> int \<Rightarrow> counts \<Rightarrow> counts" where
  "update_entry item cur_vals =
     (case item of (pos, vals_to_add) \<Rightarrow>
        AList.update pos (add_vals (vals_at cur_vals pos) vals_to_add) cur_vals)"

definition update :: "counts \<Rightarrow> counts \<Rightarrow> counts" where
  "update cur_vals to_add = fold update_entry to_add cur_vals"

subsection \<open>The aggregation loop of \<^verbatim>\<open>run\<close>\<close>

text \<open>
  The body of the loop over the cross-link positions of one (chromosome, strand): the
  barcode group is merged in place, and the merged group is collapsed into the table of
  uniquely mapped reads and into the table of reads mapped at most \<^verbatim>\<open>multimax\<close> times.
\<close>

definition run_position ::
  "int \<Rightarrow> string \<Rightarrow> int \<Rightarrow> int \<times> by_bc \<Rightarrow> counts \<times> counts \<Rightarrow> error + (counts \<times> counts)" where
  "run_position mismatches group_by multimax item tables =
     (case item of (xlink_pos, by_bc) \<Rightarrow>
      case tables of (unique_by_pos, multi_by_pos) \<Rightarrow>
        (case merge_similar_randomers by_bc mismatches of
           Inl e \<Rightarrow> Inl e
         | Inr merged \<Rightarrow>
             (case collapse xlink_pos merged group_by 1 of
                Inl e \<Rightarrow> Inl e
              | Inr unique_counts \<Rightarrow>
                  (case collapse xlink_pos merged group_by multimax of
                     Inl e \<Rightarrow> Inl e
                   | Inr multi_counts \<Rightarrow>
                       Inr (update unique_by_pos unique_counts,
                            update multi_by_pos multi_counts)))))"

definition run_bucket ::
  "int \<Rightarrow> string \<Rightarrow> int \<Rightarrow> (int \<times> by_bc) list \<Rightarrow> error + (counts \<times> counts)" where
  "run_bucket mismatches group_by multimax by_pos =
     for_each (run_position mismatches group_by multimax) by_pos ([], [])"

type_synonym grouped = "((string \<times> string) \<times> (int \<times> by_bc) list) list"
type_synonym tables = "((string \<times> string) \<times> counts) list"

definition run_chrom_strand ::
  "int \<Rightarrow> string \<Rightarrow> int \<Rightarrow> (string \<times> string) \<times> (int \<times> by_bc) list \<Rightarrow> tables \<times> tables
     \<Rightarrow> error + (tables \<times> tables)" where
  "run_chrom_strand mismatches group_by multimax item results =
     (case item of (chrom_strand, by_pos) \<Rightarrow>
      case results of (unique, multi) \<Rightarrow>
        (case run_bucket mismatches group_by multimax by_pos of
           Inl e \<Rightarrow> Inl e
         | Inr (unique_by_pos, multi_by_pos) \<Rightarrow>
             Inr (AList.update chrom_strand unique_by_pos unique,
                  AList.update chrom_strand multi_by_pos multi)))"

definition run_grouped :: "int \<Rightarrow> string \<Rightarrow> int \<Rightarrow> grouped \<Rightarrow> error + (tables \<times> tables)" where
  "run_grouped mismatches group_by multimax grouped =
     for_each (run_chrom_strand mismatches group_by multimax) grouped ([], [])"

text \<open>
  The two tables of one cross-link position: \<^verbatim>\<open>_collapse\<close> of the merged barcode group
  with \<^verbatim>\<open>multimax=1\<close> and with the configured \<^verbatim>\<open>multimax\<close>.
\<close>

definition position_tables :: "int \<Rightarrow> string \<Rightarrow> int \<Rightarrow> int \<times> by_bc \<Rightarrow> counts \<times> counts \<Rightarrow> bool" where
  "position_tables mismatches group_by multimax item tabs =
     (\<exists>merged. merge_similar_randomers (snd item) mismatches = Inr merged
        \<and> collapse (fst item) merged group_by 1 = Inr (fst tabs)
        \<and> collapse (fst item) merged group_by multimax = Inr (snd tabs))"

subsection \<open>\<^verbatim>\<open>_get_random_barcode\<close>\<close>

text \<open>
  The counters of \<^verbatim>\<open>iCount.Metrics\<close> that \<^verbatim>\<open>_processs_bam_file\<close> sets.
\<close>

record metrics =
  all_recs :: int
  notmapped_recs :: int
  mapped_recs :: int
  lowmapq_recs :: int
  used_recs :: int
  invalidrandomer_recs :: int
  norandomer_recs :: int
  bc_cn :: "(string \<times> int) list"
  strange_recs :: int

definition VALID_NUCLEOTIDES :: "char set" where
  "VALID_NUCLEOTIDES = set ''ATCGN''"

text \<open>
  \<^verbatim>\<open>s.rsplit(sep, 1)\<close> splits at the last occurrence of a non-empty separator, if there
  is one: \<open>rsplit_once\<close> returns the parts before and after it. \<^verbatim>\<open>sep in s\<close> is
  \<open>sublist sep s\<close>, and \<^verbatim>\<open>s.split(':')[0]\<close> is the part before the first colon.
\<close>

fun rsplit_once :: "string \<Rightarrow> string \<Rightarrow> (string \<times> string) option" where
  "rsplit_once sep [] = None"
| "rsplit_once sep (c # cs) =
     (case rsplit_once sep cs of
        Some (before, after) \<Rightarrow> Some (c # before, after)
      | None \<Rightarrow>
          if prefix sep (c # cs) then Some ([], drop (length sep) (c # cs)) else None)"

text \<open>
  \<^verbatim>\<open>
  if ':rbc:' in query_name:
      bc = query_name.rsplit(':rbc:', 1)[1].split(':')[0]
  elif ':' in query_name:
      bc = query_name.rsplit(':', 1)[1]
      if set(bc) - VALID_NUCLEOTIDES:
          bc = ''
          metrics.invalidrandomer_recs += 1
  else:
      bc = ''
      metrics.norandomer_recs += 1
  return bc
  \<close>
  The index \<^verbatim>\<open>[1]\<close> raises when the split has one part only.
\<close>

definition get_random_barcode :: "string \<Rightarrow> metrics \<Rightarrow> error + (string \<times> metrics)" where
  "get_random_barcode query_name metrics =
     (if sublist '':rbc:'' query_name then
        (case rsplit_once '':rbc:'' query_name of
           None \<Rightarrow> Inl IndexError
         | Some (_, rest) \<Rightarrow> Inr (takeWhile (\<lambda>c. c \<noteq> CHR '':'') rest, metrics))
      else if sublist '':'' query_name then
        (case rsplit_once '':'' query_name of
           None \<Rightarrow> Inl IndexError
         | Some (_, bc) \<Rightarrow>
             if set bc - VALID_NUCLEOTIDES \<noteq> {}
             then Inr ('''', metrics\<lparr>invalidrandomer_recs := invalidrandomer_recs metrics + 1\<rparr>)
             else Inr (bc, metrics))
      else Inr ('''', metrics\<lparr>norandomer_recs := norandomer_recs metrics + 1\<rparr>))"

text \<open>The counters as \<^verbatim>\<open>_processs_bam_file\<close> initialises them.\<close>

definition metrics_init :: metrics where
  "metrics_init =
     \<lparr>all_recs = 0, notmapped_recs = 0, mapped_recs = 0, lowmapq_recs = 0, used_recs = 0,
      invalidrandomer_recs = 0, norandomer_recs = 0, bc_cn = [], strange_recs = 0\<rparr>"

subsection \<open>\<^verbatim>\<open>_second_start\<close>\<close>

text \<open>
  The annotation is the value of \<^verbatim>\<open>iCount.genomes.segment._prepare_annotation\<close>, which
  is not part of this file; it is a parameter here: a dictionary from (chromosome, strand)
  to the genes, each a dictionary from a transcript identifier to its list of segments.
  \<^verbatim>\<open>not annotation\<close> holds of \<^verbatim>\<open>None\<close> and of the empty dictionary.
\<close>

record segment =
  start :: int
  stop :: int

type_synonym annotation =
  "((string \<times> string) \<times> (string \<times> (string \<times> segment list) list) list) list"

definition intersects_with_annotaton ::
  "int \<Rightarrow> annotation \<Rightarrow> string \<Rightarrow> string \<Rightarrow> error + bool" where
  "intersects_with_annotaton second_start annotation chrom strand =
     (case map_of annotation (chrom, strand) of
        None \<Rightarrow> Inl KeyError
      | Some genes \<Rightarrow>
          Inr (list_ex (\<lambda>(gene_id, gene_content).
                 list_ex (\<lambda>(transcript_id, transcript_content).
                    transcript_id \<noteq> ''gene_segment''
                    \<and> list_ex (\<lambda>segment.
                          if strand = ''+'' then second_start = start segment
                          else second_start = stop segment) transcript_content)
                   gene_content)
               genes))"

text \<open>
  \<^verbatim>\<open>xs[i]\<close> (a negative index counts from the end) and \<^verbatim>\<open>xs.index(v)\<close>, with their
  exceptions.
\<close>

definition getitem :: "'a list \<Rightarrow> int \<Rightarrow> error + 'a" where
  "getitem xs i =
     (if 0 \<le> i \<and> i < int (length xs) then Inr (xs ! nat i)
      else if i < 0 \<and> - int (length xs) \<le> i then Inr (xs ! nat (int (length xs) + i))
      else Inl IndexError)"

fun index_of :: "int list \<Rightarrow> int \<Rightarrow> error + nat" where
  "index_of [] v = Inl ValueError"
| "index_of (x # xs) v =
     (if x = v then Inr 0
      else (case index_of xs v of Inl e \<Rightarrow> Inl e | Inr i \<Rightarrow> Inr (Suc i)))"

text \<open>
  \<^verbatim>\<open>
  holes = [j-i-1 for i, j in zip(poss, poss[1:])]
  biggest_hole_size = max(holes) if holes else 0
  \<close>
  \<^verbatim>\<open>_second_start\<close> returns the second start and appends to \<^verbatim>\<open>strange\<close>; the model
  returns both.
\<close>

definition holes_of :: "int list \<Rightarrow> int list" where
  "holes_of poss = map (\<lambda>(i, j). j - i - 1) (zip poss (tl poss))"

definition biggest_hole :: "int list \<Rightarrow> int" where
  "biggest_hole holes = (case holes of [] \<Rightarrow> 0 | h # hs \<Rightarrow> fold max hs h)"

definition second_start ::
  "'r \<Rightarrow> int list \<Rightarrow> 'r list \<Rightarrow> string \<Rightarrow> string \<Rightarrow> annotation option \<Rightarrow> int
     \<Rightarrow> error + (int \<times> 'r list)" where
  "second_start read poss strange strand chrom annotation holesize_th =
     (let holes = holes_of poss;
          biggest_hole_size = biggest_hole holes
      in case annotation of
           None \<Rightarrow>
             Inr (0, if biggest_hole_size > holesize_th then strange @ [read] else strange)
         | Some a \<Rightarrow>
             if a = [] then
               Inr (0, if biggest_hole_size > holesize_th then strange @ [read] else strange)
             else
               (case index_of holes biggest_hole_size of
                  Inl e \<Rightarrow> Inl e
                | Inr biggest_hole_size_index \<Rightarrow>
                    (case (if strand = ''+''
                           then getitem poss (int biggest_hole_size_index + 1)
                           else getitem poss (int biggest_hole_size_index)) of
                       Inl e \<Rightarrow> Inl e
                     | Inr candidate \<Rightarrow>
                         (case intersects_with_annotaton candidate a chrom strand of
                            Inl e \<Rightarrow> Inl e
                          | Inr found \<Rightarrow>
                              if \<not> found then Inr (0, strange @ [read])
                              else Inr (candidate, strange)))))"

subsection \<open>\<^verbatim>\<open>_processs_bam_file\<close>\<close>

text \<open>
  What the loop reads of a record of the alignment file: \<^verbatim>\<open>nh_tag\<close> is the value of the
  tag \<^verbatim>\<open>NH\<close>, if the record has it, \<^verbatim>\<open>reference\<close> is \<^verbatim>\<open>bamfile.references[r.tid]\<close> and
  \<^verbatim>\<open>seq_len\<close> is \<^verbatim>\<open>len(r.seq)\<close>.
\<close>

record bam_record =
  is_unmapped :: bool
  mapq :: int
  nh_tag :: "int option"
  query_name :: string
  positions :: "int list"
  is_reverse :: bool
  reference :: string
  seq_len :: int

text \<open>
  The strand, the cross-link position, the end position and the middle position of a
  record, from its sorted positions:
  \<^verbatim>\<open>
  if r.is_reverse:
      strand = '-'; xlink_pos = poss[-1] + 1; end_pos = poss[0]
  else:
      strand = '+'; xlink_pos = poss[0] - 1; end_pos = poss[-1]
  i = len(poss)
  if i % 2 == 0:
      i = i // 2
      if strand == '-':
          i = i - 1
  else:
      i = i // 2
  middle_pos = poss[i]
  \<close>
\<close>

definition read_coords :: "bool \<Rightarrow> int list \<Rightarrow> error + (string \<times> int \<times> int \<times> int)" where
  "read_coords reverse poss =
     (case (if reverse
            then (case getitem poss (- 1) of
                    Inl e \<Rightarrow> Inl e
                  | Inr l \<Rightarrow> (case getitem poss 0 of Inl e \<Rightarrow> Inl e | Inr f \<Rightarrow> Inr (''-'', l + 1, f)))
            else (case getitem poss 0 of
                    Inl e \<Rightarrow> Inl e
                  | Inr f \<Rightarrow> (case getitem poss (- 1) of Inl e \<Rightarrow> Inl e | Inr l \<Rightarrow> Inr (''+'', f - 1, l)))) of
        Inl e \<Rightarrow> Inl e
      | Inr (strand, xlink_pos, end_pos) \<Rightarrow>
          (let i = int (length poss);
               i = (if i mod 2 = 0
                    then (if strand = ''-'' then i div 2 - 1 else i div 2)
                    else i div 2)
           in case getitem poss i of
                Inl e \<Rightarrow> Inl e
              | Inr middle_pos \<Rightarrow> Inr (strand, xlink_pos, end_pos, middle_pos)))"

text \<open>
  \<^verbatim>\<open>grouped.setdefault((chrom, strand), {}).setdefault(xlink_pos, {}).setdefault(bc, []).append(read_data)\<close>
\<close>

definition setdefault :: "'k \<Rightarrow> 'v \<Rightarrow> ('k \<times> 'v) list \<Rightarrow> ('k \<times> 'v) list" where
  "setdefault k v d = (case map_of d k of None \<Rightarrow> d @ [(k, v)] | Some _ \<Rightarrow> d)"

definition store_hit :: "string \<times> string \<Rightarrow> int \<Rightarrow> string \<Rightarrow> hit \<Rightarrow> grouped \<Rightarrow> grouped" where
  "store_hit chrom_strand xlink_pos bc read_data grouped =
     AList.map_entry chrom_strand
       (\<lambda>by_pos. AList.map_entry xlink_pos
          (\<lambda>by_bc. AList.map_entry bc (\<lambda>hits. hits @ [read_data]) (setdefault bc [] by_bc))
          (setdefault xlink_pos [] by_pos))
       (setdefault chrom_strand [] grouped)"

text \<open>\<^verbatim>\<open>grouped[chrom_strand][xlink_pos][bc]\<close>, and no hits where a key is missing.\<close>

definition hits_at :: "grouped \<Rightarrow> string \<times> string \<Rightarrow> int \<Rightarrow> string \<Rightarrow> hit list" where
  "hits_at grouped chrom_strand xlink_pos bc =
     (case map_of grouped chrom_strand of
        None \<Rightarrow> []
      | Some by_pos \<Rightarrow>
          (case map_of by_pos xlink_pos of
             None \<Rightarrow> []
           | Some by_bc \<Rightarrow> (case map_of by_bc bc of None \<Rightarrow> [] | Some hits \<Rightarrow> hits)))"

text \<open>
  The body of the loop over the records, on the counters, the grouped hits and the strange
  records. (The cache of barcode strings only shares equal strings and is left out.)
\<close>

definition process_record ::
  "int \<Rightarrow> annotation option \<Rightarrow> int \<Rightarrow> bam_record
     \<Rightarrow> metrics \<times> grouped \<times> bam_record list
     \<Rightarrow> error + (metrics \<times> grouped \<times> bam_record list)" where
  "process_record mapq_th annotation holesize_th r st =
     (case st of (metrics, grouped, strange) \<Rightarrow>
      let metrics = metrics\<lparr>all_recs := all_recs metrics + 1\<rparr> in
      if is_unmapped r then
        Inr (metrics\<lparr>notmapped_recs := notmapped_recs metrics + 1\<rparr>, grouped, strange)
      else
        let metrics = metrics\<lparr>mapped_recs := mapped_recs metrics + 1\<rparr> in
        if mapq r < mapq_th then
          Inr (metrics\<lparr>lowmapq_recs := lowmapq_recs metrics + 1\<rparr>, grouped, strange)
        else
          let metrics = metrics\<lparr>used_recs := used_recs metrics + 1\<rparr> in
          (case nh_tag r of
             None \<Rightarrow> Inl NHTagNotSet
           | Some nh \<Rightarrow>
               (case get_random_barcode (query_name r) metrics of
                  Inl e \<Rightarrow> Inl e
                | Inr (bc, metrics) \<Rightarrow>
                    let metrics = metrics\<lparr>bc_cn := AList.update bc
                          ((case map_of (bc_cn metrics) bc of None \<Rightarrow> 0 | Some n \<Rightarrow> n) + 1)
                          (bc_cn metrics)\<rparr>;
                        poss = sort (positions r)
                    in (case read_coords (is_reverse r) poss of
                          Inl e \<Rightarrow> Inl e
                        | Inr (strand, xlink_pos, end_pos, middle_pos) \<Rightarrow>
                            (case second_start r poss strange strand (reference r)
                                    annotation holesize_th of
                               Inl e \<Rightarrow> Inl e
                             | Inr (ss, strange) \<Rightarrow>
                                 Inr (metrics,
                                      store_hit (reference r, strand) xlink_pos bc
                                        (middle_pos, end_pos, seq_len r, nh, ss) grouped,
                                      strange))))))"

definition processs_bam_file ::
  "bam_record list \<Rightarrow> int \<Rightarrow> annotation option \<Rightarrow> int
     \<Rightarrow> error + (grouped \<times> metrics \<times> bam_record list)" where
  "processs_bam_file bamfile mapq_th annotation holesize_th =
     (case for_each (process_record mapq_th annotation holesize_th) bamfile
             (metrics_init, [], []) of
        Inl e \<Rightarrow> Inl e
      | Inr (metrics, grouped, strange) \<Rightarrow>
          Inr (grouped, metrics\<lparr>strange_recs := int (length strange)\<rparr>, strange))"

section \<open>Properties\<close>

subsection \<open>The mismatch comparison\<close>

lemma zip_as_index_map:
  "zip xs ys = map (\<lambda>i. (xs ! i, ys ! i)) [0..<min (length xs) (length ys)]"
  by (rule nth_equalityI) simp_all

lemma count_zip_as_index:
  "length (filter P (zip xs ys)) =
   length (filter (\<lambda>i. P (xs ! i, ys ! i)) [0..<min (length xs) (length ys)])"
proof -
  have "filter P (zip xs ys) =
        map (\<lambda>i. (xs ! i, ys ! i))
          (filter (\<lambda>i. P (xs ! i, ys ! i)) [0..<min (length xs) (length ys)])"
    by (subst zip_as_index_map) (simp add: filter_map comp_def)
  then show ?thesis by simp
qed

lemma match_sym: "match s1 s2 m = match s2 s1 m"
proof -
  have "length (filter (\<lambda>(c1, c2). c1 = CHR ''N'' \<or> c2 = CHR ''N'' \<or> c1 = c2) (zip (upper s1) (upper s2)))
      = length (filter (\<lambda>(c1, c2). c1 = CHR ''N'' \<or> c2 = CHR ''N'' \<or> c1 = c2) (zip (upper s2) (upper s1)))"
    unfolding count_zip_as_index
    by (rule arg_cong [where f = length], rule filter_cong) (auto simp: min.commute)
  then show ?thesis
    by (simp add: match_def Let_def max.commute)
qed

text \<open>
  Claim C2. For all strings and every threshold, \<^verbatim>\<open>_match\<close> holds exactly when the
  longer length minus the number of agreeing positions (equal after upper-casing, or a
  wildcard \<^verbatim>\<open>N\<close> on either side) is at most the threshold; \<^verbatim>\<open>AAN\<close> matches
  \<^verbatim>\<open>AAT\<close> with no mismatch allowed, \<^verbatim>\<open>AAA\<close> does not, and does with one.
\<close>

theorem match_iff_spec:
  "match s1 s2 m = match_spec s1 s2 m
   \<and> match ''AAN'' ''AAT'' 0 \<and> \<not> match ''AAA'' ''AAT'' 0 \<and> match ''AAA'' ''AAT'' 1"
proof -
  have idx: "\<And>i. i < min (length s1) (length s2) \<Longrightarrow>
      (case (upper s1 ! i, upper s2 ! i) of (c1, c2) \<Rightarrow> c1 = CHR ''N'' \<or> c2 = CHR ''N'' \<or> c1 = c2)
      = agree_at s1 s2 i"
    by (auto simp: agree_at_def upper_def)
  have "filter (\<lambda>i. case (upper s1 ! i, upper s2 ! i) of
                      (c1, c2) \<Rightarrow> c1 = CHR ''N'' \<or> c2 = CHR ''N'' \<or> c1 = c2)
          [0..<min (length s1) (length s2)]
        = filter (agree_at s1 s2) [0..<min (length s1) (length s2)]"
    by (rule filter_cong) (use idx in auto)
  then have general: "match s1 s2 m = match_spec s1 s2 m"
    by (simp add: match_def match_spec_def Let_def count_zip_as_index upper_def)
  have ex1: "match ''AAN'' ''AAT'' 0"
    by (simp add: match_def upper_def upper_char_def)
  have ex2: "\<not> match ''AAA'' ''AAT'' 0"
    by (simp add: match_def upper_def upper_char_def)
  have ex3: "match ''AAA'' ''AAT'' 1"
    by (simp add: match_def upper_def upper_char_def)
  from general ex1 ex2 ex3 show ?thesis by simp
qed

subsection \<open>The barcode merger\<close>

lemma keys_map_entry: "keys (AList.map_entry k f xs) = keys xs"
  by (induction xs) (auto simp: keys_def)

lemma extend_pop_ok:
  assumes "bc \<in> set (keys d)" "bc2 \<in> set (keys d)"
  shows "\<exists>d'. extend_pop bc bc2 d = Inr d' \<and> keys d' = removeAll bc2 (keys d)"
proof -
  from assms obtain hs hs2 where "map_of d bc = Some hs" "map_of d bc2 = Some hs2"
    unfolding keys_def by (metis map_of_eq_None_iff not_Some_eq set_map)
  then show ?thesis
    by (simp add: extend_pop_def keys_map_entry) (simp add: keys_def AList.delete_keys)
qed

lemma merge_into_ok:
  assumes "distinct (keys d)" "bc \<in> set (keys d)" "set (map snd rest) \<subseteq> set (keys d)"
    "distinct (map snd rest)" "bc \<notin> set (map snd rest)"
  shows "\<exists>merged' d'. merge_into m bc rest (merged, d) = Inr (merged', d')
           \<and> distinct (keys d') \<and> (merged \<longrightarrow> merged')
           \<and> (\<not> merged' \<longrightarrow> d' = d \<and> (\<forall>bc2 \<in> set (map snd rest). \<not> match bc bc2 m))"
  using assms
proof (induction rest arbitrary: merged d)
  case Nil
  then show ?case by simp
next
  case (Cons a rest)
  obtain n bc2 where a: "a = (n, bc2)" by (cases a)
  show ?case
  proof (cases "match bc bc2 m")
    case True
    from Cons.prems a have "bc2 \<in> set (keys d)" by simp
    with extend_pop_ok [OF Cons.prems(2)] obtain d1
      where e: "extend_pop bc bc2 d = Inr d1" and k: "keys d1 = removeAll bc2 (keys d)"
      by blast
    have "\<exists>merged' d'. merge_into m bc rest (True, d1) = Inr (merged', d')
           \<and> distinct (keys d') \<and> (True \<longrightarrow> merged')
           \<and> (\<not> merged' \<longrightarrow> d' = d1 \<and> (\<forall>bc2 \<in> set (map snd rest). \<not> match bc bc2 m))"
      using Cons.prems a k by (intro Cons.IH) (auto simp: distinct_removeAll)
    then obtain merged' d' where r: "merge_into m bc rest (True, d1) = Inr (merged', d')"
      and dd: "distinct (keys d')" and mg: "merged'" by blast
    from a True e r dd mg show ?thesis by auto
  next
    case False
    have "\<exists>merged' d'. merge_into m bc rest (merged, d) = Inr (merged', d')
           \<and> distinct (keys d') \<and> (merged \<longrightarrow> merged')
           \<and> (\<not> merged' \<longrightarrow> d' = d \<and> (\<forall>bc2 \<in> set (map snd rest). \<not> match bc bc2 m))"
      using Cons.prems a by (intro Cons.IH) auto
    with a False show ?thesis by auto
  qed
qed

lemma scan_pairs_ok:
  assumes "distinct (keys d)" "set (map snd ks) \<subseteq> set (keys d)" "distinct (map snd ks)"
  shows "\<exists>merged d'. scan_pairs m ks d = Inr (merged, d') \<and> distinct (keys d')
           \<and> (\<not> merged \<longrightarrow> d' = d \<and> sorted_wrt (\<lambda>k1 k2. \<not> match k1 k2 m) (map snd ks))"
  using assms
proof (induction ks)
  case Nil
  then show ?case by auto
next
  case (Cons a ks)
  obtain n bc where a: "a = (n, bc)" by (cases a)
  from Cons.prems a
  have "\<exists>merged' d'. merge_into m bc ks (False, d) = Inr (merged', d')
           \<and> distinct (keys d') \<and> (False \<longrightarrow> merged')
           \<and> (\<not> merged' \<longrightarrow> d' = d \<and> (\<forall>bc2 \<in> set (map snd ks). \<not> match bc bc2 m))"
    by (intro merge_into_ok) auto
  then obtain mg d1 where mi: "merge_into m bc ks (False, d) = Inr (mg, d1)"
    and dd: "distinct (keys d1)"
    and nm: "\<not> mg \<longrightarrow> d1 = d \<and> (\<forall>bc2 \<in> set (map snd ks). \<not> match bc bc2 m)"
    by blast
  show ?case
  proof (cases mg)
    case True
    with a mi dd show ?thesis by auto
  next
    case False
    with nm have d1: "d1 = d" and nb: "\<forall>bc2 \<in> set (map snd ks). \<not> match bc bc2 m" by simp_all
    from Cons.prems have "\<exists>merged d'. scan_pairs m ks d = Inr (merged, d') \<and> distinct (keys d')
           \<and> (\<not> merged \<longrightarrow> d' = d \<and> sorted_wrt (\<lambda>k1 k2. \<not> match k1 k2 m) (map snd ks))"
      by (intro Cons.IH) auto
    with a mi False d1 nb show ?thesis by auto
  qed
qed

lemma snd_order_bcs: "mset (map snd (order_bcs d)) = mset (keys d)"
proof -
  have "map snd (map (\<lambda>(bc, hits). (length hits, bc)) d) = keys d"
    by (simp add: keys_def case_prod_beta comp_def)
  moreover have "mset (map snd (rev (sort xs))) = mset (map snd xs)" for xs :: "(nat \<times> string) list"
    by simp
  ultimately show ?thesis by (simp only: order_bcs_def)
qed

lemma set_order_bcs: "set (map snd (order_bcs d)) = set (keys d)"
  using snd_order_bcs by (rule mset_eq_setD)

lemma distinct_order_bcs: "distinct (keys d) \<Longrightarrow> distinct (map snd (order_bcs d))"
  using snd_order_bcs by (metis mset_eq_imp_distinct_iff)

lemma sorted_wrt_sym_all:
  assumes "sorted_wrt P xs" "\<And>a b. P a b \<Longrightarrow> P b a" "a \<in> set xs" "b \<in> set xs" "a \<noteq> b"
  shows "P a b"
  using assms by (induction xs) auto

lemma step2_ok:
  "distinct (keys d) \<Longrightarrow> \<exists>d'. step2 m d = Inr d' \<and> distinct (keys d') \<and> no_match m d'"
proof (induction m d rule: step2.induct)
  case (1 m d)
  have "set (map snd (order_bcs d)) \<subseteq> set (keys d)" by (rule equalityD1 [OF set_order_bcs])
  from scan_pairs_ok [OF "1.prems" this distinct_order_bcs [OF "1.prems"], of m]
  obtain merged d1 where sp: "scan_pairs m (order_bcs d) d = Inr (merged, d1)"
    and dd: "distinct (keys d1)"
    and nm: "\<not> merged \<longrightarrow> d1 = d \<and> sorted_wrt (\<lambda>k1 k2. \<not> match k1 k2 m) (map snd (order_bcs d))"
    by blast
  show ?case
  proof (cases merged)
    case True
    from "1.IH" [OF sp refl True dd] obtain d' where "step2 m d1 = Inr d'"
      "distinct (keys d')" "no_match m d'" by blast
    with sp True show ?thesis by (subst step2.simps) simp
  next
    case False
    with nm have d1: "d1 = d"
      and sw: "sorted_wrt (\<lambda>k1 k2. \<not> match k1 k2 m) (map snd (order_bcs d))" by simp_all
    have "no_match m d"
      unfolding no_match_def
    proof (intro ballI impI)
      fix k1 k2 assume a: "k1 \<in> set (keys d)" "k2 \<in> set (keys d)" "k1 \<noteq> k2"
      then have in_order: "k1 \<in> set (map snd (order_bcs d))" "k2 \<in> set (map snd (order_bcs d))"
        by (simp_all only: set_order_bcs)
      have sym: "\<And>a b. \<not> match a b m \<Longrightarrow> \<not> match b a m"
        using match_sym by blast
      from sorted_wrt_sym_all [OF sw sym in_order a(3)] show "\<not> match k1 k2 m" .
    qed
    with sp False d1 "1.prems" show ?thesis by (subst step2.simps) simp
  qed
qed

lemma merge_into_no_match:
  "\<forall>bc2 \<in> set (map snd rest). \<not> match bc bc2 m \<Longrightarrow> merge_into m bc rest (merged, d) = Inr (merged, d)"
  by (induction rest) auto

lemma scan_pairs_no_match:
  assumes "no_match m d" "set (map snd ks) \<subseteq> set (keys d)" "distinct (map snd ks)"
  shows "scan_pairs m ks d = Inr (False, d)"
  using assms(2,3)
proof (induction ks)
  case Nil
  then show ?case by simp
next
  case (Cons a ks)
  obtain n bc where a: "a = (n, bc)" by (cases a)
  from Cons.prems a assms(1) have "\<forall>bc2 \<in> set (map snd ks). \<not> match bc bc2 m"
    unfolding no_match_def by auto
  then have "merge_into m bc ks (False, d) = Inr (False, d)"
    by (rule merge_into_no_match)
  moreover from Cons have "scan_pairs m ks d = Inr (False, d)" by simp
  ultimately show ?case using a by simp
qed

lemma step2_no_match:
  assumes "no_match m d" "distinct (keys d)"
  shows "step2 m d = Inr d"
proof -
  have "scan_pairs m (order_bcs d) d = Inr (False, d)"
    using assms(1) equalityD1 [OF set_order_bcs] distinct_order_bcs [OF assms(2)]
    by (rule scan_pairs_no_match)
  then show ?thesis by (subst step2.simps) simp
qed

lemma first_match_in: "first_match m amb ks = Some bc \<Longrightarrow> bc \<in> set (map snd ks) \<and> match bc amb m"
  by (induction ks) (auto split: if_splits)

lemma first_match_none: "\<forall>bc \<in> set (map snd ks). \<not> match bc amb m \<Longrightarrow> first_match m amb ks = None"
  by (induction ks) auto

lemma accepted_order:
  "set (map snd (order_bcs (filter (\<lambda>(bc, hits). bc \<in> acc) d))) = set (keys d) \<inter> acc"
  unfolding set_order_bcs by (auto simp: keys_def)

lemma assign_ambiguous_ok:
  assumes "amb \<in> set (keys d)" "amb \<notin> acc"
  shows "\<exists>acc' d'. assign_ambiguous m amb (acc, d) = Inr (acc', d')
           \<and> keys d' = removeAll amb (keys d) \<and> acc' = acc
           \<or> assign_ambiguous m amb (acc, d) = Inr (insert amb acc, d)"
proof (cases "first_match m amb (order_bcs (filter (\<lambda>(bc, hits). bc \<in> acc) d))")
  case None
  then show ?thesis by (simp add: assign_ambiguous_def)
next
  case (Some bc)
  from first_match_in [OF Some] have "bc \<in> set (keys d)"
    unfolding accepted_order by simp
  from extend_pop_ok [OF this assms(1)] Some show ?thesis
    by (auto simp: assign_ambiguous_def)
qed

lemma step1_ok:
  assumes "distinct (keys d)" "set (map snd ambs) \<subseteq> set (keys d)" "distinct (map snd ambs)"
    "set (map snd ambs) \<inter> acc = {}"
  shows "\<exists>acc' d'. step1 m ambs (acc, d) = Inr (acc', d') \<and> distinct (keys d')"
  using assms
proof (induction ambs arbitrary: acc d)
  case Nil
  then show ?case by simp
next
  case (Cons a ambs)
  obtain n amb where a: "a = (n, amb)" by (cases a)
  from Cons.prems a have amb: "amb \<in> set (keys d)" "amb \<notin> acc" by auto
  from assign_ambiguous_ok [OF amb, of m]
  consider (merged) d' where "assign_ambiguous m amb (acc, d) = Inr (acc, d')"
      "keys d' = removeAll amb (keys d)"
    | (accepted) "assign_ambiguous m amb (acc, d) = Inr (insert amb acc, d)"
    by blast
  then show ?case
  proof cases
    case merged
    have "\<exists>acc' d''. step1 m ambs (acc, d') = Inr (acc', d'') \<and> distinct (keys d'')"
      using Cons.prems a merged(2) by (intro Cons.IH) (auto simp: distinct_removeAll)
    with a merged(1) show ?thesis by simp
  next
    case accepted
    have "\<exists>acc' d''. step1 m ambs (insert amb acc, d) = Inr (acc', d'') \<and> distinct (keys d'')"
      using Cons.prems a by (intro Cons.IH) auto
    with a accepted show ?thesis by simp
  qed
qed

lemma step1_no_match:
  assumes "no_match m d" "set (map snd ambs) \<subseteq> set (keys d)" "distinct (map snd ambs)"
    "set (map snd ambs) \<inter> acc = {}"
  shows "\<exists>acc'. step1 m ambs (acc, d) = Inr (acc', d)"
  using assms(2-)
proof (induction ambs arbitrary: acc)
  case Nil
  then show ?case by simp
next
  case (Cons a ambs)
  obtain n amb where a: "a = (n, amb)" by (cases a)
  from Cons.prems a have amb: "amb \<in> set (keys d)" "amb \<notin> acc" by auto
  have "\<forall>bc \<in> set (map snd (order_bcs (filter (\<lambda>(bc, hits). bc \<in> acc) d))). \<not> match bc amb m"
    unfolding accepted_order using assms(1) amb by (auto simp: no_match_def)
  then have "first_match m amb (order_bcs (filter (\<lambda>(bc, hits). bc \<in> acc) d)) = None"
    by (rule first_match_none)
  then have one: "assign_ambiguous m amb (acc, d) = Inr (insert amb acc, d)"
    by (simp add: assign_ambiguous_def)
  have "\<exists>acc'. step1 m ambs (insert amb acc, d) = Inr (acc', d)"
    using Cons.prems a by (intro Cons.IH) auto
  with a one show ?case by simp
qed

lemma ambig_sorted_keys:
  "mset (map snd (sort (ambig_init d))) = mset (filter (\<lambda>barcode. count_N barcode \<noteq> 0) (keys d))"
proof -
  have "map snd (ambig_init d) = filter (\<lambda>barcode. count_N barcode \<noteq> 0) (keys d)"
    by (simp add: ambig_init_def keys_def comp_def)
  moreover have "mset (map snd (sort xs)) = mset (map snd xs)" for xs :: "(nat \<times> string) list"
    by simp
  ultimately show ?thesis by (simp only:)
qed

lemma ambig_facts:
  "set (map snd (sort (ambig_init d))) \<subseteq> set (keys d)"
  "distinct (keys d) \<Longrightarrow> distinct (map snd (sort (ambig_init d)))"
  "set (map snd (sort (ambig_init d))) \<inter> accepted_init d = {}"
proof -
  have s: "set (map snd (sort (ambig_init d))) = set (filter (\<lambda>barcode. count_N barcode \<noteq> 0) (keys d))"
    using ambig_sorted_keys by (rule mset_eq_setD)
  from s show "set (map snd (sort (ambig_init d))) \<subseteq> set (keys d)" by auto
  from s show "set (map snd (sort (ambig_init d))) \<inter> accepted_init d = {}"
    by (auto simp: accepted_init_def)
  assume "distinct (keys d)"
  then have "distinct (filter (\<lambda>barcode. count_N barcode \<noteq> 0) (keys d))" by simp
  with ambig_sorted_keys show "distinct (map snd (sort (ambig_init d)))"
    by (metis mset_eq_imp_distinct_iff)
qed

text \<open>
  Claim C3. The barcode merger is idempotent: on every barcode group (a dictionary, so
  its keys are distinct) and for every threshold, \<^verbatim>\<open>_merge_similar_randomers\<close> returns,
  and applied again to its result it returns that result unchanged, keys and hit lists.
\<close>

theorem merge_similar_randomers_idempotent:
  assumes "distinct (map fst by_bc)"
  shows "\<exists>merged. merge_similar_randomers by_bc mismatches = Inr merged
           \<and> merge_similar_randomers merged mismatches = Inr merged"
proof -
  from assms have dk: "distinct (keys by_bc)" by (simp add: keys_def)
  from step1_ok [OF dk ambig_facts(1) ambig_facts(2) [OF dk] ambig_facts(3), of mismatches]
  obtain acc1 d1 where s1: "step1 mismatches (sort (ambig_init by_bc)) (accepted_init by_bc, by_bc) = Inr (acc1, d1)"
    and d1: "distinct (keys d1)" by blast
  from step2_ok [OF d1, of mismatches] obtain merged where s2: "step2 mismatches d1 = Inr merged"
    and dm: "distinct (keys merged)" and nm: "no_match mismatches merged" by blast
  from s1 s2 have first: "merge_similar_randomers by_bc mismatches = Inr merged"
    by (simp add: merge_similar_randomers_def)
  from step1_no_match [OF nm ambig_facts(1) ambig_facts(2) [OF dm] ambig_facts(3)]
  obtain acc2 where "step1 mismatches (sort (ambig_init merged)) (accepted_init merged, merged) = Inr (acc2, merged)"
    by blast
  with step2_no_match [OF nm dm] have "merge_similar_randomers merged mismatches = Inr merged"
    by (simp add: merge_similar_randomers_def)
  with first show ?thesis by blast
qed

theorem merge_similar_randomers_idempotent_witness:
  "distinct (map fst [(''AAT'', [(105, 110, 10, 1, 0)]), (''AAN'', [(106, 112, 12, 1, 0)]), (''CCC'', [(104, 108, 8, 2, 0)]), (''CCG'', [(105, 110, 10, 1, 0), (106, 112, 12, 1, 0::int)])]) \<and>
   merge_similar_randomers [(''AAT'', [(105, 110, 10, 1, 0)]), (''AAN'', [(106, 112, 12, 1, 0)]), (''CCC'', [(104, 108, 8, 2, 0)]), (''CCG'', [(105, 110, 10, 1, 0), (106, 112, 12, 1, 0)])] 1
     = Inr [(''AAT'', [(105, 110, 10, 1, 0), (106, 112, 12, 1, 0)]), (''CCG'', [(105, 110, 10, 1, 0), (106, 112, 12, 1, 0), (104, 108, 8, 2, 0)])] \<and>
   merge_similar_randomers [(''AAT'', [(105, 110, 10, 1, 0), (106, 112, 12, 1, 0)]), (''CCG'', [(105, 110, 10, 1, 0), (106, 112, 12, 1, 0), (104, 108, 8, 2, 0)])] 1
     = Inr [(''AAT'', [(105, 110, 10, 1, 0), (106, 112, 12, 1, 0)]), (''CCG'', [(105, 110, 10, 1, 0), (106, 112, 12, 1, 0), (104, 108, 8, 2, 0)])]"
proof -
  let ?d = "[(''AAT'', [(105, 110, 10, 1, 0)]), (''AAN'', [(106, 112, 12, 1, 0)]), (''CCC'', [(104, 108, 8, 2, 0)]), (''CCG'', [(105, 110, 10, 1, 0), (106, 112, 12, 1, 0::int)])] :: by_bc"
  have dist: "distinct (map fst ?d)" by simp
  have run: "merge_similar_randomers ?d 1
     = Inr [(''AAT'', [(105, 110, 10, 1, 0), (106, 112, 12, 1, 0)]), (''CCG'', [(105, 110, 10, 1, 0), (106, 112, 12, 1, 0), (104, 108, 8, 2, 0)])]"
    by (simp add: merge_similar_randomers_def ambig_init_def accepted_init_def count_N_def
        assign_ambiguous_def order_bcs_def match_def upper_def upper_char_def extend_pop_def)
  from merge_similar_randomers_idempotent [OF dist, of 1] run dist show ?thesis by auto
qed


text \<open>Merging moves hits between barcodes and adds none; on a dictionary it returns.\<close>

lemma hits_map_entry:
  "hits_of (AList.map_entry k (\<lambda>hits. hits @ hits2) xs) \<subseteq> hits_of xs \<union> set hits2"
  by (induction xs) (auto simp: hits_of_def)

lemma hits_delete: "hits_of (AList.delete k d) \<subseteq> hits_of d"
  by (auto simp: hits_of_def AList.delete_eq)

lemma hits_lookup: "map_of d k = Some hits \<Longrightarrow> set hits \<subseteq> hits_of d"
  by (auto simp: hits_of_def dest!: map_of_SomeD)

lemma extend_pop_hits: "extend_pop bc bc2 d = Inr d' \<Longrightarrow> hits_of d' \<subseteq> hits_of d"
proof -
  assume "extend_pop bc bc2 d = Inr d'"
  then obtain hits2 where h: "map_of d bc2 = Some hits2"
    and d': "d' = AList.map_entry bc (\<lambda>hits. hits @ hits2) (AList.delete bc2 d)"
    by (auto simp: extend_pop_def split: option.splits)
  from hits_map_entry [of bc hits2 "AList.delete bc2 d"] hits_delete [of bc2 d] hits_lookup [OF h] d'
  show ?thesis by blast
qed

lemma merge_into_hits:
  "merge_into m bc rest (merged, d) = Inr (merged', d') \<Longrightarrow> hits_of d' \<subseteq> hits_of d"
proof (induction rest arbitrary: merged d)
  case Nil
  then show ?case by simp
next
  case (Cons a rest)
  obtain n bc2 where a: "a = (n, bc2)" by (cases a)
  show ?case
  proof (cases "match bc bc2 m")
    case True
    with Cons.prems a obtain d1 where e: "extend_pop bc bc2 d = Inr d1"
      and r: "merge_into m bc rest (True, d1) = Inr (merged', d')"
      by (auto split: sum.splits)
    from Cons.IH [OF r] extend_pop_hits [OF e] show ?thesis by blast
  next
    case False
    with Cons.prems a have "merge_into m bc rest (merged, d) = Inr (merged', d')" by simp
    from Cons.IH [OF this] show ?thesis .
  qed
qed

lemma scan_pairs_hits: "scan_pairs m ks d = Inr (merged, d') \<Longrightarrow> hits_of d' \<subseteq> hits_of d"
proof (induction ks arbitrary: d)
  case Nil
  then show ?case by simp
next
  case (Cons a ks)
  obtain n bc where a: "a = (n, bc)" by (cases a)
  from Cons.prems a obtain mg d1 where mi: "merge_into m bc ks (False, d) = Inr (mg, d1)"
    and rest: "(if mg then Inr (True, d1) else scan_pairs m ks d1) = Inr (merged, d')"
    by (auto split: sum.splits)
  show ?case
  proof (cases mg)
    case True
    with rest merge_into_hits [OF mi] show ?thesis by simp
  next
    case False
    with rest have "scan_pairs m ks d1 = Inr (merged, d')" by simp
    from Cons.IH [OF this] merge_into_hits [OF mi] show ?thesis by blast
  qed
qed

lemma step2_hits: "step2 m d = Inr d' \<Longrightarrow> hits_of d' \<subseteq> hits_of d"
proof (induction m d rule: step2.induct)
  case (1 m d)
  from "1.prems" obtain merged d1 where sp: "scan_pairs m (order_bcs d) d = Inr (merged, d1)"
    and rest: "(if merged then step2 m d1 else Inr d1) = Inr d'"
    by (subst (asm) step2.simps) (auto split: sum.splits simp del: step2.simps)
  show ?case
  proof (cases merged)
    case True
    with rest have "step2 m d1 = Inr d'" by simp
    from "1.IH" [OF sp refl True this] scan_pairs_hits [OF sp] show ?thesis by blast
  next
    case False
    with rest scan_pairs_hits [OF sp] show ?thesis by simp
  qed
qed

lemma step1_hits: "step1 m ambs (acc, d) = Inr (acc', d') \<Longrightarrow> hits_of d' \<subseteq> hits_of d"
proof (induction ambs arbitrary: acc d)
  case Nil
  then show ?case by simp
next
  case (Cons a ambs)
  obtain n amb where a: "a = (n, amb)" by (cases a)
  from Cons.prems a obtain acc1 d1 where one: "assign_ambiguous m amb (acc, d) = Inr (acc1, d1)"
    and rest: "step1 m ambs (acc1, d1) = Inr (acc', d')"
    by (auto split: sum.splits)
  from one have "hits_of d1 \<subseteq> hits_of d"
    by (auto simp: assign_ambiguous_def split: option.splits sum.splits dest: extend_pop_hits)
  with Cons.IH [OF rest] show ?case by blast
qed

lemma merge_similar_randomers_hits:
  "merge_similar_randomers by_bc m = Inr merged \<Longrightarrow> hits_of merged \<subseteq> hits_of by_bc"
proof -
  assume "merge_similar_randomers by_bc m = Inr merged"
  then obtain acc d1 where s1: "step1 m (sort (ambig_init by_bc)) (accepted_init by_bc, by_bc) = Inr (acc, d1)"
    and s2: "step2 m d1 = Inr merged"
    by (auto simp: merge_similar_randomers_def split: sum.splits)
  from step1_hits [OF s1] step2_hits [OF s2] show ?thesis by blast
qed

lemma merge_similar_randomers_returns:
  assumes "distinct (map fst by_bc)"
  shows "\<exists>merged. merge_similar_randomers by_bc m = Inr merged"
proof -
  from assms have dk: "distinct (keys by_bc)" by (simp add: keys_def)
  from step1_ok [OF dk ambig_facts(1) ambig_facts(2) [OF dk] ambig_facts(3), of m]
  obtain acc1 d1 where s1: "step1 m (sort (ambig_init by_bc)) (accepted_init by_bc, by_bc) = Inr (acc1, d1)"
    and d1: "distinct (keys d1)" by blast
  from step2_ok [OF d1, of m] obtain merged where "step2 m d1 = Inr merged" by blast
  with s1 show ?thesis by (simp add: merge_similar_randomers_def)
qed

subsection \<open>Weights and read counts of \<^verbatim>\<open>_collapse\<close>\<close>

lemma totals_update:
  "total_cdna (AList.update p (fst (case map_of c p of None \<Rightarrow> (0, 0) | Some v \<Rightarrow> v) + w,
                              snd (case map_of c p of None \<Rightarrow> (0, 0) | Some v \<Rightarrow> v) + n) c)
     = total_cdna c + w"
  "total_reads (AList.update p (fst (case map_of c p of None \<Rightarrow> (0, 0) | Some v \<Rightarrow> v) + w,
                              snd (case map_of c p of None \<Rightarrow> (0, 0) | Some v \<Rightarrow> v) + n) c)
     = total_reads c + n"
  by (induction c) (auto simp: total_cdna_def total_reads_def)


lemma count_hits_totals:
  assumes "\<forall>h \<in> set hs. num_mapped h \<le> mm \<longrightarrow> num_mapped h * S \<noteq> 0"
  shows "\<exists>c'. for_each (count_hit x gi mm S) hs c = Inr c'
           \<and> total_cdna c' = total_cdna c
               + sum_list (map (\<lambda>h. of_int (read_len h) / of_int (num_mapped h * S))
                    (filter (\<lambda>h. num_mapped h \<le> mm) hs))
           \<and> total_reads c' = total_reads c + int (length (filter (\<lambda>h. num_mapped h \<le> mm) hs))"
  using assms
proof (induction hs arbitrary: c)
  case Nil
  then show ?case by simp
next
  case (Cons h hs)
  obtain mp ep rl nm ss where h: "h = (mp, ep, rl, nm, ss)" by (cases h)
  show ?case
  proof (cases "nm \<le> mm")
    case False
    then have "count_hit x gi mm S h c = Inr c" by (simp add: count_hit_def h)
    with Cons False h show ?thesis by simp
  next
    case True
    with Cons.prems h have nz: "nm * S \<noteq> 0" by simp
    define c1 where "c1 = AList.update (select_pos gi x mp ep)
        (fst (case map_of c (select_pos gi x mp ep) of None \<Rightarrow> (0, 0) | Some v \<Rightarrow> v)
           + (of_int rl :: rat) / of_int (nm * S),
         snd (case map_of c (select_pos gi x mp ep) of None \<Rightarrow> (0, 0) | Some v \<Rightarrow> v) + 1) c"
    from True nz have step: "count_hit x gi mm S h c = Inr c1"
      by (simp add: count_hit_def h c1_def Let_def)
    have t1: "total_cdna c1 = total_cdna c + of_int rl / of_int (nm * S)"
      and t2: "total_reads c1 = total_reads c + 1"
      unfolding c1_def by (rule totals_update)+
    from Cons.IH [of c1] Cons.prems obtain c' where
      r: "for_each (count_hit x gi mm S) hs c1 = Inr c'"
      and r1: "total_cdna c' = total_cdna c1
               + sum_list (map (\<lambda>h. of_int (read_len h) / of_int (num_mapped h * S))
                    (filter (\<lambda>h. num_mapped h \<le> mm) hs))"
      and r2: "total_reads c' = total_reads c1 + int (length (filter (\<lambda>h. num_mapped h \<le> mm) hs))"
      by auto
    from step r r1 r2 t1 t2 True h show ?thesis by simp
  qed
qed


lemma sum_len_lower:
  assumes "\<forall>h \<in> set g. 1 \<le> read_len h" "h \<in> set g" "num_mapped h \<le> mm"
  shows "read_len h \<le> sum_len_per_barcode mm g"
proof -
  have "\<forall>h \<in> set g. 1 \<le> read_len h \<Longrightarrow> h \<in> set g \<Longrightarrow> num_mapped h \<le> mm \<Longrightarrow>
    read_len h \<le> sum_list (map read_len (filter (\<lambda>i. num_mapped i \<le> mm) g))
    \<and> 0 \<le> sum_list (map read_len (filter (\<lambda>i. num_mapped i \<le> mm) g))" for g
  proof (induction g)
    case Nil
    then show ?case by simp
  next
    case (Cons a g)
    have nn: "0 \<le> sum_list (map read_len (filter (\<lambda>i. num_mapped i \<le> mm) g))"
      using Cons.prems(1) by (intro sum_list_nonneg) auto
    show ?case
    proof (cases "h = a")
      case True
      with Cons.prems nn show ?thesis by auto
    next
      case False
      with Cons have "read_len h \<le> sum_list (map read_len (filter (\<lambda>i. num_mapped i \<le> mm) g))"
        by auto
      with Cons.prems nn show ?thesis by auto
    qed
  qed
  with assms show ?thesis by (simp add: sum_len_per_barcode_def)
qed

lemma denominator_lower:
  assumes "\<forall>h \<in> set g. 1 \<le> read_len h \<and> 1 \<le> num_mapped h" "h \<in> set g" "num_mapped h \<le> mm"
  shows "read_len h \<le> num_mapped h * sum_len_per_barcode mm g"
proof -
  from assms have s: "read_len h \<le> sum_len_per_barcode mm g"
    by (intro sum_len_lower) auto
  from assms have "1 \<le> read_len h" "1 \<le> num_mapped h" by auto
  with s have "1 * sum_len_per_barcode mm g \<le> num_mapped h * sum_len_per_barcode mm g"
    by (intro mult_right_mono) auto
  with s show ?thesis by simp
qed

lemma collapse_ss_group_total:
  assumes "\<forall>h \<in> set ss_group. 1 \<le> read_len h \<and> 1 \<le> num_mapped h"
  shows "\<exists>counts'. collapse_ss_group xlink_pos gi multimax ss_group counts = Inr counts'"
proof -
  have "\<forall>h \<in> set ss_group. num_mapped h \<le> multimax \<longrightarrow>
          num_mapped h * sum_len_per_barcode multimax ss_group \<noteq> 0"
  proof (intro ballI impI)
    fix h assume h: "h \<in> set ss_group" "num_mapped h \<le> multimax"
    from denominator_lower [OF assms h] assms h(1)
    show "num_mapped h * sum_len_per_barcode multimax ss_group \<noteq> 0" by force
  qed
  from count_hits_totals [OF this, of xlink_pos gi counts] show ?thesis
    unfolding collapse_ss_group_def by blast
qed











lemmas collapse_eval =
  collapse_def group_index_def collapse_barcode_def separate_by_second_starts_def
  setdefault_append_def collapse_ss_group_def sum_len_per_barcode_def count_hit_def
  select_pos_def


lemma all_hits_map_entry:
  "\<Union> (set ` snd ` set (AList.map_entry k (\<lambda>group. group @ [r]) gs))
     \<subseteq> insert r (\<Union> (set ` snd ` set gs))"
  by (induction gs) auto

lemma all_hits_setdefault_append:
  "\<Union> (set ` snd ` set (setdefault_append r gs)) \<subseteq> insert r (\<Union> (set ` snd ` set gs))"
  using all_hits_map_entry [of "second_start_of r" r gs]
  by (auto simp: setdefault_append_def split: option.splits)

lemma all_hits_fold:
  "\<Union> (set ` snd ` set (fold setdefault_append hits gs)) \<subseteq> set hits \<union> \<Union> (set ` snd ` set gs)"
proof (induction hits arbitrary: gs)
  case Nil
  then show ?case by simp
next
  case (Cons r hits)
  from Cons.IH [of "setdefault_append r gs"] all_hits_setdefault_append [of r gs]
  show ?case by auto
qed

lemma separate_subset:
  "g \<in> set (map snd (separate_by_second_starts hits)) \<Longrightarrow> set g \<subseteq> set hits"
  using all_hits_fold [of hits "[]"] by (auto simp: separate_by_second_starts_def)

lemma for_each_ok:
  assumes "\<And>x s. x \<in> set xs \<Longrightarrow> \<exists>s'. body x s = Inr s'"
  shows "\<exists>s'. for_each body xs s = Inr s'"
  using assms
proof (induction xs arbitrary: s)
  case Nil
  then show ?case by simp
next
  case (Cons x xs)
  from Cons.prems [of x s] obtain s1 where "body x s = Inr s1" by auto
  moreover from Cons.IH [of s1] Cons.prems obtain s' where "for_each body xs s1 = Inr s'"
    by auto
  ultimately show ?case by simp
qed

lemma collapse_returns:
  assumes "\<forall>h \<in> hits_of by_bc. 1 \<le> read_len h \<and> 1 \<le> num_mapped h"
    and "group_by = ''start'' \<or> group_by = ''middle'' \<or> group_by = ''end''"
  shows "\<exists>counts. collapse xlink_pos by_bc group_by multimax = Inr counts"
proof -
  have grp: "\<forall>h \<in> set g. 1 \<le> read_len h \<and> 1 \<le> num_mapped h"
    if "entry \<in> set by_bc" "g \<in> set (map snd (separate_by_second_starts (snd entry)))" for entry g
  proof -
    from that(1) have "set (snd entry) \<subseteq> hits_of by_bc" by (auto simp: hits_of_def)
    with assms(1) separate_subset [OF that(2)] show ?thesis by blast
  qed
  have one: "\<exists>c'. collapse_ss_group xlink_pos gi multimax g c = Inr c'"
    if "entry \<in> set by_bc" "g \<in> set (map snd (separate_by_second_starts (snd entry)))"
    for entry g gi c
    using collapse_ss_group_total [OF grp [OF that]] by blast
  have bc: "\<exists>c'. collapse_barcode xlink_pos gi multimax entry c = Inr c'"
    if "entry \<in> set by_bc" for entry gi c
    unfolding collapse_barcode_def by (rule for_each_ok) (rule one [OF that])
  have all: "\<exists>c'. for_each (collapse_barcode xlink_pos gi multimax) by_bc [] = Inr c'" for gi
    by (rule for_each_ok) (rule bc)
  from assms(2) obtain gi where "group_index group_by = Inr gi"
    by (auto simp: group_index_def)
  with all [of gi] show ?thesis by (simp add: collapse_def)
qed

text \<open>
  Claim C10, as amended. When every hit of a barcode group has read length at least 1 and
  mapping multiplicity at least 1, \<^verbatim>\<open>_collapse\<close> returns (no division by zero): a hit
  whose weight is computed has \<^verbatim>\<open>num_mapped \<le> multimax\<close>, its read length is part of
  \<^verbatim>\<open>sum_len_per_barcode\<close>, and the divisor is at least its read length; a hit with
  \<^verbatim>\<open>num_mapped > multimax\<close> is skipped before the division, whatever the sum.
\<close>

theorem collapse_no_zero_division:
  assumes "\<forall>item \<in> set by_bc. \<forall>h \<in> set (snd item). 1 \<le> read_len h \<and> 1 \<le> num_mapped h"
    and "group_by = ''start'' \<or> group_by = ''middle'' \<or> group_by = ''end''"
  shows "(\<exists>counts. collapse xlink_pos by_bc group_by multimax = Inr counts)
     \<and> (\<forall>item \<in> set by_bc. \<forall>ss_group \<in> set (map snd (separate_by_second_starts (snd item))).
          \<forall>h \<in> set ss_group. num_mapped h \<le> multimax \<longrightarrow>
            1 \<le> read_len h
            \<and> read_len h \<le> sum_len_per_barcode multimax ss_group
            \<and> read_len h \<le> num_mapped h * sum_len_per_barcode multimax ss_group)
     \<and> (\<forall>h gi counts. multimax < num_mapped h \<longrightarrow>
          count_hit xlink_pos gi multimax 0 h counts = Inr counts)"
proof -
  have grp: "\<forall>h \<in> set g. 1 \<le> read_len h \<and> 1 \<le> num_mapped h"
    if "item \<in> set by_bc" "g \<in> set (map snd (separate_by_second_starts (snd item)))" for item g
    using assms(1) that(1) separate_subset [OF that(2)] by blast
  from assms(1) have "\<forall>h \<in> hits_of by_bc. 1 \<le> read_len h \<and> 1 \<le> num_mapped h"
    by (auto simp: hits_of_def)
  from collapse_returns [OF this assms(2)]
  have returns: "\<exists>counts. collapse xlink_pos by_bc group_by multimax = Inr counts" .
  have dens: "\<forall>item \<in> set by_bc. \<forall>ss_group \<in> set (map snd (separate_by_second_starts (snd item))).
          \<forall>h \<in> set ss_group. num_mapped h \<le> multimax \<longrightarrow>
            1 \<le> read_len h
            \<and> read_len h \<le> sum_len_per_barcode multimax ss_group
            \<and> read_len h \<le> num_mapped h * sum_len_per_barcode multimax ss_group"
  proof (intro ballI impI)
    fix item g h
    assume a: "item \<in> set by_bc" "g \<in> set (map snd (separate_by_second_starts (snd item)))"
      "h \<in> set g" "num_mapped h \<le> multimax"
    from grp [OF a(1,2)] have g: "\<forall>h \<in> set g. 1 \<le> read_len h \<and> 1 \<le> num_mapped h" .
    then have g1: "\<forall>h \<in> set g. 1 \<le> read_len h" by blast
    from g a(3) sum_len_lower [OF g1 a(3,4)] denominator_lower [OF g a(3,4)]
    show "1 \<le> read_len h
            \<and> read_len h \<le> sum_len_per_barcode multimax g
            \<and> read_len h \<le> num_mapped h * sum_len_per_barcode multimax g"
      by blast
  qed
  have skip: "\<forall>h gi counts. multimax < num_mapped h \<longrightarrow>
          count_hit xlink_pos gi multimax 0 h counts = Inr counts"
    by (auto simp: count_hit_def split: prod.splits)
  from returns dens skip show ?thesis by blast
qed

theorem collapse_no_zero_division_witness:
  "collapse 100 [(''AAT'', [(105, 110, 10, 1, 0), (106, 112, 12, 1, 0)]),
                 (''CCG'', [(105, 110, 10, 1, 0), (106, 112, 12, 1, 120), (104, 108, 8, 2, 0)])]
     ''middle'' 2 = Inr [(105, 100 / 99, 2), (106, 17 / 11, 2), (104, 2 / 9, 1)]
   \<and> (\<exists>counts. collapse 100 [(''AAT'', [(105, 110, 10, 1, 0), (106, 112, 12, 1, 0)]),
                 (''CCG'', [(105, 110, 10, 1, 0), (106, 112, 12, 1, 120), (104, 108, 8, 2, 0)])]
     ''middle'' 2 = Inr counts)
   \<and> (10::int) \<le> 2 * sum_len_per_barcode 2 [(105, 110, 10, 1, 0), (104, 108, 8, 2, 0)]"
proof -
  let ?d = "[(''AAT'', [(105, 110, 10, 1, 0), (106, 112, 12, 1, 0)]),
             (''CCG'', [(105, 110, 10, 1, 0), (106, 112, 12, 1, 120), (104, 108, 8, 2, 0)])] :: by_bc"
  have pre: "\<forall>item \<in> set ?d. \<forall>h \<in> set (snd item). 1 \<le> read_len h \<and> 1 \<le> num_mapped h"
    by simp
  have gb: "''middle'' = ''start'' \<or> ''middle'' = ''middle'' \<or> ''middle'' = ''end''" by simp
  have run: "collapse 100 ?d ''middle'' 2 = Inr [(105, 100 / 99, 2), (106, 17 / 11, 2), (104, 2 / 9, 1)]"
    by (simp add: collapse_eval)
  from collapse_no_zero_division [OF pre gb, of 100 2]
  have ex: "\<exists>counts. collapse 100 ?d ''middle'' 2 = Inr counts" by blast
  have "(10::int) \<le> 2 * sum_len_per_barcode 2 [(105, 110, 10, 1, 0), (104, 108, 8, 2, 0)]"
    by (simp add: sum_len_per_barcode_def)
  with run ex show ?thesis by blast
qed

text \<open>
  With read length 10 and \<^verbatim>\<open>num_mapped = 0\<close> the hit passes the \<^verbatim>\<open>multimax\<close> test and
  the divisor is \<^verbatim>\<open>0 * 10\<close>.
\<close>

theorem collapse_zero_division_counterexample:
  "read_len (105, 110, 10, 0, 0) = 10 \<and> num_mapped (105, 110, 10, 0, 0) = 0
   \<and> collapse 100 [(''AAT'', [(105, 110, 10, 0, 0)])] ''start'' 1 = Inl ZeroDivisionError"
  by (simp add: collapse_eval)


subsection \<open>The aggregation loop\<close>

lemma add_vals_zero [simp]: "add_vals v (0, 0) = v"
  by (simp add: add_vals_def)

lemma vals_at_update_entry:
  "vals_at (update_entry (pos, v) cur) p =
     (if p = pos then add_vals (vals_at cur pos) v else vals_at cur p)"
  by (simp add: update_entry_def vals_at_def AList.update_conv')

lemma vals_at_notin: "p \<notin> fst ` set to_add \<Longrightarrow> vals_at to_add p = (0, 0)"
  by (simp add: vals_at_def map_of_eq_None_iff [THEN iffD2])

lemma vals_at_update:
  "distinct (map fst to_add) \<Longrightarrow>
   vals_at (update cur to_add) p = add_vals (vals_at cur p) (vals_at to_add p)"
  unfolding update_def
proof (induction to_add arbitrary: cur)
  case Nil
  then show ?case by (simp add: vals_at_def)
next
  case (Cons a to_add)
  obtain pos v where a: "a = (pos, v)" by (cases a)
  from Cons.prems a have d: "distinct (map fst to_add)" and n: "pos \<notin> fst ` set to_add" by auto
  have "vals_at (fold update_entry to_add (update_entry (pos, v) cur)) p
        = add_vals (vals_at (update_entry (pos, v) cur) p) (vals_at to_add p)"
    by (rule Cons.IH [OF d])
  also have "\<dots> = add_vals (vals_at cur p) (vals_at ((pos, v) # to_add) p)"
  proof (cases "p = pos")
    case True
    with n have "vals_at to_add p = (0, 0)" by (simp add: vals_at_notin)
    moreover have "vals_at ((pos, v) # to_add) pos = v" by (simp add: vals_at_def)
    ultimately show ?thesis using True by (simp add: vals_at_update_entry)
  next
    case False
    then have "vals_at ((pos, v) # to_add) p = vals_at to_add p" by (simp add: vals_at_def)
    with False show ?thesis by (simp add: vals_at_update_entry)
  qed
  finally show ?case using a by simp
qed

lemma for_each_invariant:
  assumes "for_each body xs s = Inr s'" "P s"
    "\<And>x t t'. x \<in> set xs \<Longrightarrow> P t \<Longrightarrow> body x t = Inr t' \<Longrightarrow> P t'"
  shows "P s'"
  using assms
proof (induction xs arbitrary: s)
  case Nil
  then show ?case by simp
next
  case (Cons x xs)
  from Cons.prems(1) obtain s1 where b: "body x s = Inr s1" and r: "for_each body xs s1 = Inr s'"
    by (auto split: sum.splits)
  from Cons.prems(3) [of x s s1] Cons.prems(2) b have "P s1" by simp
  have "\<And>y t t'. y \<in> set xs \<Longrightarrow> P t \<Longrightarrow> body y t = Inr t' \<Longrightarrow> P t'"
    using Cons.prems(3) by (meson list.set_intros(2))
  from Cons.IH [OF r \<open>P s1\<close> this] show ?case .
qed

lemma count_hit_distinct:
  "count_hit x gi mm S h c = Inr c' \<Longrightarrow> distinct (map fst c) \<Longrightarrow> distinct (map fst c')"
  by (auto simp: count_hit_def Let_def AList.distinct_update split: prod.splits if_splits)

lemma collapse_distinct: "collapse x d g mm = Inr c \<Longrightarrow> distinct (map fst c)"
proof -
  assume a: "collapse x d g mm = Inr c"
  then obtain gi where run: "for_each (collapse_barcode x gi mm) d [] = Inr c"
    by (auto simp: collapse_def split: sum.splits)
  have grp: "distinct (map fst t')"
    if "collapse_ss_group x gi mm ss t = Inr t'" "distinct (map fst t)" for ss t t'
    using that(1) unfolding collapse_ss_group_def
    by (rule for_each_invariant [where P = "\<lambda>t. distinct (map fst t)"])
       (use that(2) count_hit_distinct in blast)+
  have bc: "distinct (map fst t')"
    if "collapse_barcode x gi mm item t = Inr t'" "distinct (map fst t)" for item t t'
    using that(1) unfolding collapse_barcode_def
    by (rule for_each_invariant [where P = "\<lambda>t. distinct (map fst t)"])
       (use that(2) grp in blast)+
  show ?thesis
    using run
    by (rule for_each_invariant [where P = "\<lambda>t. distinct (map fst t)"])
       (use bc in auto)
qed

lemma run_position_unfold:
  assumes "run_position m g mm item (u0, mu0) = Inr (u1, mu1)"
  shows "\<exists>tabs. position_tables m g mm item tabs
            \<and> u1 = update u0 (fst tabs) \<and> mu1 = update mu0 (snd tabs)"
  using assms
  by (cases item) (auto simp: run_position_def position_tables_def split: sum.splits)

lemma run_loop_accumulates:
  assumes "for_each (run_position m g mm) by_pos (u0, mu0) = Inr (u, mu)"
  shows "\<exists>tabs. list_all2 (position_tables m g mm) by_pos tabs
     \<and> (\<forall>pos. vals_at u pos = foldl add_vals (vals_at u0 pos) (map (\<lambda>t. vals_at (fst t) pos) tabs))
     \<and> (\<forall>pos. vals_at mu pos = foldl add_vals (vals_at mu0 pos) (map (\<lambda>t. vals_at (snd t) pos) tabs))"
  using assms
proof (induction by_pos arbitrary: u0 mu0)
  case Nil
  then show ?case by simp
next
  case (Cons item by_pos)
  from Cons.prems obtain u1 mu1 where one: "run_position m g mm item (u0, mu0) = Inr (u1, mu1)"
    and rest: "for_each (run_position m g mm) by_pos (u1, mu1) = Inr (u, mu)"
    by (auto split: sum.splits)
  from run_position_unfold [OF one] obtain tab where pt: "position_tables m g mm item tab"
    and u1: "u1 = update u0 (fst tab)" and mu1: "mu1 = update mu0 (snd tab)" by blast
  from pt have d1: "distinct (map fst (fst tab))" and d2: "distinct (map fst (snd tab))"
    unfolding position_tables_def using collapse_distinct by blast+
  from Cons.IH [OF rest] obtain tabs where l: "list_all2 (position_tables m g mm) by_pos tabs"
    and a: "\<forall>pos. vals_at u pos = foldl add_vals (vals_at u1 pos) (map (\<lambda>t. vals_at (fst t) pos) tabs)"
    and b: "\<forall>pos. vals_at mu pos = foldl add_vals (vals_at mu1 pos) (map (\<lambda>t. vals_at (snd t) pos) tabs)"
    by blast
  have "list_all2 (position_tables m g mm) (item # by_pos) (tab # tabs)"
    using pt l by simp
  moreover have "\<forall>pos. vals_at u pos
      = foldl add_vals (vals_at u0 pos) (map (\<lambda>t. vals_at (fst t) pos) (tab # tabs))"
    using a by (simp add: u1 vals_at_update [OF d1])
  moreover have "\<forall>pos. vals_at mu pos
      = foldl add_vals (vals_at mu0 pos) (map (\<lambda>t. vals_at (snd t) pos) (tab # tabs))"
    using b by (simp add: mu1 vals_at_update [OF d2])
  ultimately show ?case by blast
qed

lemma run_position_returns:
  assumes "distinct (map fst (snd entry))"
    and "\<forall>h \<in> hits_of (snd entry). 1 \<le> read_len h \<and> 1 \<le> num_mapped h"
    and "group_by = ''start'' \<or> group_by = ''middle'' \<or> group_by = ''end''"
  shows "\<exists>tables'. run_position m group_by multimax entry tables = Inr tables'"
proof -
  obtain xlink_pos by_bc where e: "entry = (xlink_pos, by_bc)" by (cases entry)
  obtain u mu where t: "tables = (u, mu)" by (cases tables)
  from merge_similar_randomers_returns [of by_bc m] assms(1) e
  obtain merged where mg: "merge_similar_randomers by_bc m = Inr merged" by auto
  from merge_similar_randomers_hits [OF mg] assms(2) e
  have ok: "\<forall>h \<in> hits_of merged. 1 \<le> read_len h \<and> 1 \<le> num_mapped h" by auto
  from collapse_returns [OF ok assms(3), of xlink_pos 1] obtain c1
    where c1: "collapse xlink_pos merged group_by 1 = Inr c1" by blast
  from collapse_returns [OF ok assms(3), of xlink_pos multimax] obtain c2
    where c2: "collapse xlink_pos merged group_by multimax = Inr c2" by blast
  from mg c1 c2 e t show ?thesis by (simp add: run_position_def)
qed

lemma run_bucket_returns:
  assumes "\<forall>entry \<in> set by_pos. distinct (map fst (snd entry))
             \<and> (\<forall>h \<in> hits_of (snd entry). 1 \<le> read_len h \<and> 1 \<le> num_mapped h)"
    and "group_by = ''start'' \<or> group_by = ''middle'' \<or> group_by = ''end''"
  shows "\<exists>tables. run_bucket m group_by multimax by_pos = Inr tables"
  unfolding run_bucket_def
proof (rule for_each_ok)
  fix entry tables
  assume "entry \<in> set by_pos"
  with assms(1) have d: "distinct (map fst (snd entry))"
    and h: "\<forall>h \<in> hits_of (snd entry). 1 \<le> read_len h \<and> 1 \<le> num_mapped h"
    by blast+
  from run_position_returns [OF d h assms(2)]
  show "\<exists>tables'. run_position m group_by multimax entry tables = Inr tables'" .
qed

text \<open>
  Claim C6. For every (chromosome, strand) bucket whose barcode groups are dictionaries of
  hits with read length and multiplicity at least 1, the aggregation loop returns; and
  the tables it returns are, at every output coordinate, the element-wise sums over the
  cross-link positions of the (cDNA weight, read count) pairs of two tables per position:
  \<^verbatim>\<open>_collapse\<close> with \<^verbatim>\<open>multimax=1\<close> and \<^verbatim>\<open>_collapse\<close> with the configured
  \<^verbatim>\<open>multimax\<close>, both of the one result of \<^verbatim>\<open>_merge_similar_randomers\<close> on that
  position's barcode group.
\<close>

theorem run_bucket_accumulates:
  "((\<forall>entry \<in> set by_pos. distinct (map fst (snd entry))
        \<and> (\<forall>h \<in> hits_of (snd entry). 1 \<le> read_len h \<and> 1 \<le> num_mapped h))
      \<and> (group_by = ''start'' \<or> group_by = ''middle'' \<or> group_by = ''end'')
     \<longrightarrow> (\<exists>tables. run_bucket mismatches group_by multimax by_pos = Inr tables))
   \<and> (run_bucket mismatches group_by multimax by_pos = Inr (unique_by_pos, multi_by_pos)
     \<longrightarrow> (\<exists>tabs. list_all2 (position_tables mismatches group_by multimax) by_pos tabs
          \<and> (\<forall>pos. vals_at unique_by_pos pos
                = foldl add_vals (0, 0) (map (\<lambda>t. vals_at (fst t) pos) tabs))
          \<and> (\<forall>pos. vals_at multi_by_pos pos
                = foldl add_vals (0, 0) (map (\<lambda>t. vals_at (snd t) pos) tabs))))"
proof (intro conjI impI)
  assume "(\<forall>entry \<in> set by_pos. distinct (map fst (snd entry))
        \<and> (\<forall>h \<in> hits_of (snd entry). 1 \<le> read_len h \<and> 1 \<le> num_mapped h))
      \<and> (group_by = ''start'' \<or> group_by = ''middle'' \<or> group_by = ''end'')"
  then show "\<exists>tables. run_bucket mismatches group_by multimax by_pos = Inr tables"
    using run_bucket_returns [of by_pos group_by mismatches multimax] by blast
next
  assume "run_bucket mismatches group_by multimax by_pos = Inr (unique_by_pos, multi_by_pos)"
  from run_loop_accumulates [OF this [unfolded run_bucket_def]]
  show "\<exists>tabs. list_all2 (position_tables mismatches group_by multimax) by_pos tabs
          \<and> (\<forall>pos. vals_at unique_by_pos pos
                = foldl add_vals (0, 0) (map (\<lambda>t. vals_at (fst t) pos) tabs))
          \<and> (\<forall>pos. vals_at multi_by_pos pos
                = foldl add_vals (0, 0) (map (\<lambda>t. vals_at (snd t) pos) tabs))"
    by (simp add: vals_at_def)
qed

theorem run_bucket_accumulates_witness:
  "run_bucket 1 ''end'' 2
     [(100, [(''AAT'', [(105, 110, 10, 1, 0)]), (''AAN'', [(106, 112, 12, 2, 0)])]),
      (103, [(''CCC'', [(106, 110, 12, 1, 0)])])]
     = Inr ([(110, 2, 2)], [(110, 16 / 11, 2), (112, 3 / 11, 1)])
   \<and> (\<exists>tables. run_bucket 1 ''end'' 2
     [(100, [(''AAT'', [(105, 110, 10, 1, 0)]), (''AAN'', [(106, 112, 12, 2, 0)])]),
      (103, [(''CCC'', [(106, 110, 12, 1, 0)])])] = Inr tables)
   \<and> (\<exists>tabs. list_all2 (position_tables 1 ''end'' 2)
          [(100, [(''AAT'', [(105, 110, 10, 1, 0)]), (''AAN'', [(106, 112, 12, 2, 0)])]),
           (103, [(''CCC'', [(106, 110, 12, 1, 0)])])] tabs
        \<and> vals_at [(110, 2, 2)] 110 = foldl add_vals (0, 0) (map (\<lambda>t. vals_at (fst t) 110) tabs)
        \<and> vals_at [(110, 16 / 11, 2), (112, 3 / 11, 1)] 110
            = foldl add_vals (0, 0) (map (\<lambda>t. vals_at (snd t) 110) tabs))"
proof -
  let ?by_pos = "[(100, [(''AAT'', [(105, 110, 10, 1, 0)]), (''AAN'', [(106, 112, 12, 2, 0)])]),
      (103, [(''CCC'', [(106, 110, 12, 1, 0)])])] :: (int \<times> by_bc) list"
  have pre: "(\<forall>entry \<in> set ?by_pos. distinct (map fst (snd entry))
        \<and> (\<forall>h \<in> hits_of (snd entry). 1 \<le> read_len h \<and> 1 \<le> num_mapped h))
      \<and> (''end'' = ''start'' \<or> ''end'' = ''middle'' \<or> ''end'' = ''end'')"
    by (simp add: hits_of_def)
  have run: "run_bucket 1 ''end'' 2 ?by_pos
     = Inr ([(110, 2, 2)], [(110, 16 / 11, 2), (112, 3 / 11, 1)])"
    by (simp add: run_bucket_def run_position_def merge_similar_randomers_def ambig_init_def
        accepted_init_def count_N_def assign_ambiguous_def order_bcs_def match_def upper_def
        upper_char_def extend_pop_def collapse_eval update_def update_entry_def vals_at_def
        add_vals_def)
  from run_bucket_accumulates [THEN conjunct1, rule_format, OF pre, of 1 2]
  have total: "\<exists>tables. run_bucket 1 ''end'' 2 ?by_pos = Inr tables" .
  from run_bucket_accumulates [THEN conjunct2, rule_format, OF run] run total
  show ?thesis by blast
qed

subsection \<open>Barcode extraction\<close>

lemma rsplit_once_None: "sep \<noteq> [] \<Longrightarrow> rsplit_once sep s = None \<longleftrightarrow> \<not> sublist sep s"
  by (induction s) (auto simp: sublist_Cons_right split: option.splits)

lemma rsplit_once_last:
  assumes "sep \<noteq> []" "\<not> sublist sep (tl (sep @ rest))"
  shows "rsplit_once sep (pre @ sep @ rest) = Some (pre, rest)"
proof (induction pre)
  case Nil
  from assms(1) obtain c sep' where sep: "sep = c # sep'" by (cases sep) auto
  from assms(2) sep have "\<not> sublist sep (sep' @ rest)" by simp
  then have "rsplit_once sep (sep' @ rest) = None"
    by (simp add: rsplit_once_None [OF assms(1)])
  with sep show ?case by simp
next
  case (Cons p pre)
  then show ?case by simp
qed

lemma sublist_single: "sublist [c] xs \<longleftrightarrow> c \<in> set xs"
  by (induction xs) (auto simp: sublist_Cons_right)

lemma sublist_set: "sublist xs ys \<Longrightarrow> set xs \<subseteq> set ys"
  by (auto simp: sublist_def)

text \<open>
  Claim C7, as amended. If the read name contains \<^verbatim>\<open>:rbc:\<close>, the barcode is what follows
  the last \<^verbatim>\<open>:rbc:\<close> up to the next colon. Otherwise, if it contains a colon, the barcode
  is what follows the last colon, unless one of its characters is not one of the upper-case
  letters A, C, G, T, N: then the barcode is empty and the counter of invalid barcodes grows
  by one. With no colon the barcode is empty and the counter of missing barcodes grows by
  one. The extraction always returns.
\<close>

theorem get_random_barcode_cases:
  "(qname = pre @ '':rbc:'' @ rest \<and> \<not> sublist '':rbc:'' (tl ('':rbc:'' @ rest)) \<longrightarrow>
      get_random_barcode qname metrics
        = Inr (takeWhile (\<lambda>c. c \<noteq> CHR '':'') rest, metrics))
   \<and> (\<not> sublist '':rbc:'' qname \<and> qname = pre @ '':'' @ bc \<and> CHR '':'' \<notin> set bc \<longrightarrow>
      get_random_barcode qname metrics
        = (if set bc \<subseteq> set ''ACGTN''
           then Inr (bc, metrics)
           else Inr ('''', metrics\<lparr>invalidrandomer_recs := invalidrandomer_recs metrics + 1\<rparr>)))
   \<and> (CHR '':'' \<notin> set qname \<longrightarrow>
      get_random_barcode qname metrics
        = Inr ('''', metrics\<lparr>norandomer_recs := norandomer_recs metrics + 1\<rparr>))
   \<and> (\<exists>barcode metrics'. get_random_barcode qname metrics = Inr (barcode, metrics'))"
proof (intro conjI impI)
  assume a: "qname = pre @ '':rbc:'' @ rest \<and> \<not> sublist '':rbc:'' (tl ('':rbc:'' @ rest))"
  have "rsplit_once '':rbc:'' (pre @ '':rbc:'' @ rest) = Some (pre, rest)"
    using a by (intro rsplit_once_last) simp_all
  with a have r: "rsplit_once '':rbc:'' qname = Some (pre, rest)" by (simp only:)
  have "sublist '':rbc:'' (pre @ '':rbc:'' @ rest)" by (rule sublist_appendI)
  with a have s: "sublist '':rbc:'' qname" by (simp only:)
  show "get_random_barcode qname metrics
        = Inr (takeWhile (\<lambda>c. c \<noteq> CHR '':'') rest, metrics)"
    by (simp add: get_random_barcode_def r s)
next
  assume a: "\<not> sublist '':rbc:'' qname \<and> qname = pre @ '':'' @ bc \<and> CHR '':'' \<notin> set bc"
  then have nr: "\<not> sublist '':rbc:'' qname" by (rule conjunct1)
  from a have "\<not> sublist '':'' (tl ('':'' @ bc))" by (simp add: sublist_single)
  then have "rsplit_once '':'' (pre @ '':'' @ bc) = Some (pre, bc)"
    by (intro rsplit_once_last) simp_all
  with a have r: "rsplit_once '':'' qname = Some (pre, bc)" by (simp only:)
  have "sublist '':'' (pre @ '':'' @ bc)" by (rule sublist_appendI)
  with a have s: "sublist '':'' qname" by (simp only:)
  have v: "(set bc - VALID_NUCLEOTIDES \<noteq> {}) = (\<not> set bc \<subseteq> set ''ACGTN'')"
    by (auto simp: VALID_NUCLEOTIDES_def)
  show "get_random_barcode qname metrics
        = (if set bc \<subseteq> set ''ACGTN''
           then Inr (bc, metrics)
           else Inr ('''', metrics\<lparr>invalidrandomer_recs := invalidrandomer_recs metrics + 1\<rparr>))"
    unfolding get_random_barcode_def
    by (simp only: nr s r v if_False if_True option.case prod.case) simp
next
  assume a: "CHR '':'' \<notin> set qname"
  then have s: "\<not> sublist '':'' qname" by (simp add: sublist_single)
  from a have nr: "\<not> sublist '':rbc:'' qname"
    using sublist_set [of "'':rbc:''" qname] by auto
  show "get_random_barcode qname metrics
        = Inr ('''', metrics\<lparr>norandomer_recs := norandomer_recs metrics + 1\<rparr>)"
    by (simp add: get_random_barcode_def nr s)
next
  have "rsplit_once '':rbc:'' qname \<noteq> None" if "sublist '':rbc:'' qname"
    using that by (simp add: rsplit_once_None)
  moreover have "rsplit_once '':'' qname \<noteq> None" if "sublist '':'' qname"
    using that by (simp add: rsplit_once_None)
  ultimately show "\<exists>barcode metrics'. get_random_barcode qname metrics = Inr (barcode, metrics')"
    by (auto simp: get_random_barcode_def split: option.splits)
qed


theorem get_random_barcode_cases_witness:
  "get_random_barcode ''r1:rbc:AAT:x'' metrics_init = Inr (''AAT'', metrics_init)
   \<and> get_random_barcode ''r1:ACGT'' metrics_init = Inr (''ACGT'', metrics_init)
   \<and> get_random_barcode ''r1:AXG'' metrics_init
       = Inr ('''', metrics_init\<lparr>invalidrandomer_recs := invalidrandomer_recs metrics_init + 1\<rparr>)
   \<and> get_random_barcode ''read1'' metrics_init
       = Inr ('''', metrics_init\<lparr>norandomer_recs := norandomer_recs metrics_init + 1\<rparr>)"
proof -
  have h1: "''r1:rbc:AAT:x'' = ''r1'' @ '':rbc:'' @ ''AAT:x''
            \<and> \<not> sublist '':rbc:'' (tl ('':rbc:'' @ ''AAT:x''))"
    by (simp add: sublist_code prefix_code)
  have h2: "\<not> sublist '':rbc:'' ''r1:ACGT'' \<and> ''r1:ACGT'' = ''r1'' @ '':'' @ ''ACGT''
            \<and> CHR '':'' \<notin> set ''ACGT''"
    by (simp add: sublist_code prefix_code)
  have h3: "\<not> sublist '':rbc:'' ''r1:AXG'' \<and> ''r1:AXG'' = ''r1'' @ '':'' @ ''AXG''
            \<and> CHR '':'' \<notin> set ''AXG''"
    by (simp add: sublist_code prefix_code)
  have h4: "CHR '':'' \<notin> set ''read1''" by simp
  have v2: "set ''ACGT'' \<subseteq> set ''ACGTN''" by simp
  have v3: "\<not> set ''AXG'' \<subseteq> set ''ACGTN''" by simp
  have r1: "get_random_barcode ''r1:rbc:AAT:x'' metrics_init
       = Inr (takeWhile (\<lambda>c. c \<noteq> CHR '':'') ''AAT:x'', metrics_init)"
    by (rule get_random_barcode_cases [THEN conjunct1, rule_format, OF h1])
  have r2: "get_random_barcode ''r1:ACGT'' metrics_init = Inr (''ACGT'', metrics_init)"
    using get_random_barcode_cases [THEN conjunct2, THEN conjunct1, rule_format, OF h2] v2
    by (simp only: if_True)
  have r3: "get_random_barcode ''r1:AXG'' metrics_init
       = Inr ([], metrics_init\<lparr>invalidrandomer_recs := invalidrandomer_recs metrics_init + 1\<rparr>)"
    using get_random_barcode_cases [THEN conjunct2, THEN conjunct1, rule_format, OF h3] v3
    by (simp only: if_False)
  have r4: "get_random_barcode ''read1'' metrics_init
       = Inr ([], metrics_init\<lparr>norandomer_recs := norandomer_recs metrics_init + 1\<rparr>)"
    by (rule get_random_barcode_cases
          [THEN conjunct2, THEN conjunct2, THEN conjunct1, rule_format, OF h4])
  from r1 r2 r3 r4 show ?thesis by simp
qed

text \<open>
  A lower-case barcode, which is inside the case-insensitive alphabet, is rejected: the
  test against \<^verbatim>\<open>VALID_NUCLEOTIDES\<close> is case-sensitive.
\<close>

theorem get_random_barcode_lower_case_counterexample:
  "\<not> sublist '':rbc:'' ''read1:acgt''
   \<and> upper ''acgt'' = ''ACGT''
   \<and> get_random_barcode ''read1:acgt'' metrics_init
       = Inr ('''', metrics_init\<lparr>invalidrandomer_recs := 1\<rparr>)"
  by (simp add: get_random_barcode_def sublist_code prefix_code VALID_NUCLEOTIDES_def
      upper_def upper_char_def metrics_init_def)


subsection \<open>Coordinates and second start of a read\<close>

lemma getitem_first: "xs \<noteq> [] \<Longrightarrow> getitem xs 0 = Inr (xs ! 0)"
  by (simp add: getitem_def)

lemma getitem_last: "xs \<noteq> [] \<Longrightarrow> getitem xs (- 1) = Inr (xs ! (length xs - 1))"
proof -
  assume "xs \<noteq> []"
  then have len: "0 < length xs" by simp
  then have "nat (int (length xs) + - 1) = length xs - 1" by linarith
  moreover from len have "- int (length xs) \<le> - 1" by linarith
  ultimately show ?thesis by (simp add: getitem_def)
qed

lemma getitem_nat: "i < length xs \<Longrightarrow> getitem xs (int i) = Inr (xs ! i)"
  by (simp add: getitem_def)

text \<open>
  Claim C5. For a non-empty sorted position list of length \<open>n\<close>: on the plus strand the
  cross-link position is the first position minus one and the end position is the last
  one; on the minus strand the cross-link position is the last position plus one and the
  end position is the first one; the middle position is at index \<open>n div 2\<close>, except on the
  minus strand for even \<open>n\<close>, where it is at index \<open>n div 2 - 1\<close>.
\<close>

theorem read_coords_positions:
  assumes "poss \<noteq> []"
  shows "read_coords False poss
           = Inr (''+'', poss ! 0 - 1, poss ! (length poss - 1), poss ! (length poss div 2))
       \<and> read_coords True poss
           = Inr (''-'', poss ! (length poss - 1) + 1, poss ! 0,
                  poss ! (if even (length poss) then length poss div 2 - 1
                          else length poss div 2))"
proof -
  from assms have pos: "0 < length poss" by simp
  have half: "int (length poss) div 2 = int (length poss div 2)" by simp
  have mid: "getitem poss (int (length poss div 2)) = Inr (poss ! (length poss div 2))"
    using pos by (intro getitem_nat) simp
  have plus: "read_coords False poss
           = Inr (''+'', poss ! 0 - 1, poss ! (length poss - 1), poss ! (length poss div 2))"
    by (simp add: read_coords_def Let_def getitem_first [OF assms] getitem_last [OF assms] half mid
        del: of_nat_div)
  have minus: "read_coords True poss
           = Inr (''-'', poss ! (length poss - 1) + 1, poss ! 0,
                  poss ! (if even (length poss) then length poss div 2 - 1
                          else length poss div 2))"
  proof (cases "even (length poss)")
    case True
    have two: "2 \<le> length poss"
    proof (rule ccontr)
      assume "\<not> 2 \<le> length poss"
      with pos have "length poss = 1" by linarith
      with True show False by simp
    qed
    then have "int (length poss div 2) - 1 = int (length poss div 2 - 1)" by simp
    moreover from two have "getitem poss (int (length poss div 2 - 1))
        = Inr (poss ! (length poss div 2 - 1))"
      by (intro getitem_nat) simp
    moreover from True have "(int (length poss) mod 2 = 0) = True" by presburger
    moreover from True have "even (length poss) = True" by simp
    moreover have "(''-'' = ''-'') = True" by simp
    ultimately show ?thesis
      unfolding read_coords_def Let_def
      by (simp only: getitem_first [OF assms] getitem_last [OF assms] half
            if_True if_False sum.case prod.case)
  next
    case False
    then have c: "(int (length poss) mod 2 = 0) = False" by presburger
    from False have e: "even (length poss) = False" by simp
    show ?thesis
      unfolding read_coords_def Let_def
      by (simp only: c e getitem_first [OF assms] getitem_last [OF assms] half mid
            if_True if_False sum.case prod.case)
  qed
  from plus minus show ?thesis by simp
qed

theorem read_coords_positions_witness:
  "read_coords False [100, 101, 102, 110, 111] = Inr (''+'', 99, 111, 102)
   \<and> read_coords True [101, 102, 103, 104] = Inr (''-'', 105, 101, 102)
   \<and> read_coords False [101, 102, 103, 104] = Inr (''+'', 100, 104, 103)"
proof -
  have a: "[100, 101, 102, 110, 111] \<noteq> ([] :: int list)" by simp
  have b: "[101, 102, 103, 104] \<noteq> ([] :: int list)" by simp
  from read_coords_positions [OF a] read_coords_positions [OF b] show ?thesis by simp
qed

lemma map_of_setdefault:
  "map_of (setdefault k v d) k = (case map_of d k of None \<Rightarrow> Some v | Some x \<Rightarrow> Some x)"
  by (auto simp: setdefault_def map_add_def split: option.splits)

lemma map_of_entry_setdefault:
  "map_of (AList.map_entry k f (setdefault k v d)) k
     = Some (f (case map_of d k of None \<Rightarrow> v | Some x \<Rightarrow> x))"
  by (simp add: AList.map_of_map_entry map_of_setdefault split: option.splits)

lemma hits_at_store_hit:
  "hits_at (store_hit chrom_strand xlink_pos bc read_data grouped) chrom_strand xlink_pos bc
     = hits_at grouped chrom_strand xlink_pos bc @ [read_data]"
  by (simp add: hits_at_def store_hit_def map_of_entry_setdefault split: option.splits)

lemma getitem_in_range:
  "0 \<le> i \<Longrightarrow> i < int (length xs) \<Longrightarrow> \<exists>v. getitem xs i = Inr v"
  by (simp add: getitem_def)

lemma read_coords_returns:
  assumes "poss \<noteq> []"
  shows "\<exists>strand xlink_pos end_pos middle_pos.
           read_coords reverse poss = Inr (strand, xlink_pos, end_pos, middle_pos)"
proof -
  from assms have len: "0 < int (length poss)" by simp
  have half: "0 \<le> int (length poss) div 2" "int (length poss) div 2 < int (length poss)"
    using len by presburger+
  have even_case: "0 \<le> int (length poss) div 2 - 1" if "int (length poss) mod 2 = 0"
    using that len by presburger
  have lower: "int (length poss) div 2 - 1 < int (length poss)" using len by presburger
  obtain m1 where m1: "getitem poss (int (length poss) div 2) = Inr m1"
    using getitem_in_range [OF half] by blast
  have m2: "\<exists>m2. getitem poss (int (length poss) div 2 - 1) = Inr m2"
    if "int (length poss) mod 2 = 0"
    using getitem_in_range [OF even_case [OF that] lower] .
  show ?thesis
  proof (cases "int (length poss) mod 2 = 0")
    case True
    from m2 [OF True] obtain v where "getitem poss (int (length poss) div 2 - 1) = Inr v" ..
    with True m1 show ?thesis
      by (cases reverse)
         (simp_all add: read_coords_def Let_def getitem_first [OF assms] getitem_last [OF assms]
            del: of_nat_div)
  next
    case False
    with m1 show ?thesis
      by (cases reverse)
         (simp_all add: read_coords_def Let_def getitem_first [OF assms] getitem_last [OF assms]
            del: of_nat_div)
  qed
qed

lemma get_random_barcode_returns:
  "\<exists>barcode metrics'. get_random_barcode qname metrics = Inr (barcode, metrics')"
proof -
  have "rsplit_once '':rbc:'' qname \<noteq> None" if "sublist '':rbc:'' qname"
    using that by (simp add: rsplit_once_None)
  moreover have "rsplit_once '':'' qname \<noteq> None" if "sublist '':'' qname"
    using that by (simp add: rsplit_once_None)
  ultimately show ?thesis
    by (auto simp: get_random_barcode_def split: option.splits)
qed

lemma process_record_used_without_annotation:
  assumes "\<not> is_unmapped r" "\<not> mapq r < mapq_th" "nh_tag r = Some nh" "positions r \<noteq> []"
    and "annotation = None \<or> annotation = Some []"
  shows "\<exists>metrics' bc strand xlink_pos end_pos middle_pos grouped'.
          process_record mapq_th annotation holesize_th r (metrics, grouped, strange0)
            = Inr (metrics', grouped',
                   if biggest_hole (holes_of (sort (positions r))) > holesize_th
                   then strange0 @ [r] else strange0)
          \<and> read_coords (is_reverse r) (sort (positions r))
              = Inr (strand, xlink_pos, end_pos, middle_pos)
          \<and> hits_at grouped' (reference r, strand) xlink_pos bc
              = hits_at grouped (reference r, strand) xlink_pos bc
                  @ [(middle_pos, end_pos, seq_len r, nh, 0)]"
proof -
  let ?m = "metrics\<lparr>all_recs := all_recs metrics + 1, mapped_recs := mapped_recs metrics + 1,
                     used_recs := used_recs metrics + 1\<rparr>"
  have "\<exists>bc m2. get_random_barcode (query_name r) ?m = Inr (bc, m2)"
    by (rule get_random_barcode_returns)
  then obtain bc m2 where bc: "get_random_barcode (query_name r) ?m = Inr (bc, m2)" by blast
  from assms(4) have "sort (positions r) \<noteq> []" by (metis length_0_conv length_sort)
  from read_coords_returns [OF this, of "is_reverse r"]
  obtain strand xlink_pos end_pos middle_pos
    where rc: "read_coords (is_reverse r) (sort (positions r))
                 = Inr (strand, xlink_pos, end_pos, middle_pos)" by blast
  have ss: "second_start r (sort (positions r)) strange0 strand (reference r) annotation holesize_th
      = Inr (0, if biggest_hole (holes_of (sort (positions r))) > holesize_th
                then strange0 @ [r] else strange0)"
    using assms(5) by (auto simp: second_start_def Let_def)
  have "process_record mapq_th annotation holesize_th r (metrics, grouped, strange0)
      = Inr (m2\<lparr>bc_cn := AList.update bc
                   ((case map_of (bc_cn m2) bc of None \<Rightarrow> 0 | Some n \<Rightarrow> n) + 1) (bc_cn m2)\<rparr>,
             store_hit (reference r, strand) xlink_pos bc
               (middle_pos, end_pos, seq_len r, nh, 0) grouped,
             if biggest_hole (holes_of (sort (positions r))) > holesize_th
             then strange0 @ [r] else strange0)"
    using assms(1-3) bc rc ss by (simp add: process_record_def Let_def)
  with rc hits_at_store_hit show ?thesis by blast
qed

text \<open>
  Claim C8. Without an annotation (\<^verbatim>\<open>None\<close> or empty), \<^verbatim>\<open>_second_start\<close> returns 0, and
  appends the read to the strange reads exactly when the biggest hole exceeds the
  threshold; the biggest hole is the maximum of the holes, and 0 when there is none. So a
  used record with its tag \<^verbatim>\<open>NH\<close> and a position is processed without error: its hit is
  appended, with second start 0, to the hits of its barcode at its cross-link position,
  and the record joins the strange records exactly when its biggest hole exceeds the
  threshold.
\<close>

theorem second_start_without_annotation:
  "second_start read poss strange strand chrom None holesize_th
     = Inr (0, if biggest_hole (holes_of poss) > holesize_th then strange @ [read] else strange)
   \<and> second_start read poss strange strand chrom (Some []) holesize_th
     = Inr (0, if biggest_hole (holes_of poss) > holesize_th then strange @ [read] else strange)
   \<and> biggest_hole [] = 0
   \<and> biggest_hole (h # hs) = Max (set (h # hs))
   \<and> holes_of [100, 101, 102, 110, 111] = [0, 0, 7, 0]
   \<and> (\<not> is_unmapped r \<and> \<not> mapq r < mapq_th \<and> nh_tag r = Some nh \<and> positions r \<noteq> []
        \<and> (annotation = None \<or> annotation = Some []) \<longrightarrow>
       (\<exists>metrics' bc strand xlink_pos end_pos middle_pos grouped'.
          process_record mapq_th annotation holesize_th r (metrics, grouped, strange0)
            = Inr (metrics', grouped',
                   if biggest_hole (holes_of (sort (positions r))) > holesize_th
                   then strange0 @ [r] else strange0)
          \<and> read_coords (is_reverse r) (sort (positions r))
              = Inr (strand, xlink_pos, end_pos, middle_pos)
          \<and> hits_at grouped' (reference r, strand) xlink_pos bc
              = hits_at grouped (reference r, strand) xlink_pos bc
                  @ [(middle_pos, end_pos, seq_len r, nh, 0)]))"
proof -
  have mx: "biggest_hole (h # hs) = Max (set (h # hs))"
    by (simp only: biggest_hole_def list.case Max.set_eq_fold)
  have rest: "second_start read poss strange strand chrom None holesize_th
     = Inr (0, if biggest_hole (holes_of poss) > holesize_th then strange @ [read] else strange)
   \<and> second_start read poss strange strand chrom (Some []) holesize_th
     = Inr (0, if biggest_hole (holes_of poss) > holesize_th then strange @ [read] else strange)
   \<and> biggest_hole [] = 0
   \<and> holes_of [100, 101, 102, 110, 111] = [0, 0, 7, 0]"
    by (simp add: second_start_def Let_def biggest_hole_def holes_of_def)
  have stored: "\<not> is_unmapped r \<and> \<not> mapq r < mapq_th \<and> nh_tag r = Some nh \<and> positions r \<noteq> []
        \<and> (annotation = None \<or> annotation = Some []) \<longrightarrow>
       (\<exists>metrics' bc strand xlink_pos end_pos middle_pos grouped'.
          process_record mapq_th annotation holesize_th r (metrics, grouped, strange0)
            = Inr (metrics', grouped',
                   if biggest_hole (holes_of (sort (positions r))) > holesize_th
                   then strange0 @ [r] else strange0)
          \<and> read_coords (is_reverse r) (sort (positions r))
              = Inr (strand, xlink_pos, end_pos, middle_pos)
          \<and> hits_at grouped' (reference r, strand) xlink_pos bc
              = hits_at grouped (reference r, strand) xlink_pos bc
                  @ [(middle_pos, end_pos, seq_len r, nh, 0)])"
    using process_record_used_without_annotation [of r mapq_th nh annotation holesize_th metrics grouped strange0]
    by blast
  from mx rest stored show ?thesis by blast
qed

theorem second_start_without_annotation_witness:
  "(\<exists>metrics' bc strand xlink_pos end_pos middle_pos grouped'.
      process_record 0 None 4
        \<lparr>is_unmapped = False, mapq = 255, nh_tag = Some 1, query_name = ''r1:rbc:AAT'',
         positions = [100, 101, 102, 110, 111], is_reverse = False, reference = ''chr1'',
         seq_len = 5\<rparr>
        (metrics_init, [], [])
      = Inr (metrics', grouped',
             [\<lparr>is_unmapped = False, mapq = 255, nh_tag = Some 1, query_name = ''r1:rbc:AAT'',
               positions = [100, 101, 102, 110, 111], is_reverse = False, reference = ''chr1'',
               seq_len = 5\<rparr>])
      \<and> read_coords False [100, 101, 102, 110, 111] = Inr (strand, xlink_pos, end_pos, middle_pos)
      \<and> hits_at grouped' (''chr1'', strand) xlink_pos bc = [(middle_pos, end_pos, 5, 1, 0)])
   \<and> read_coords False [100, 101, 102, 110, 111] = Inr (''+'', 99, 111, 102)
   \<and> biggest_hole (holes_of [100, 101, 102, 110, 111]) = 7"
proof -
  let ?r = "\<lparr>is_unmapped = False, mapq = 255, nh_tag = Some 1, query_name = ''r1:rbc:AAT'',
         positions = [100, 101, 102, 110, 111], is_reverse = False, reference = ''chr1'',
         seq_len = 5\<rparr>"
  have hyp: "\<not> is_unmapped ?r \<and> \<not> mapq ?r < 0 \<and> nh_tag ?r = Some 1 \<and> positions ?r \<noteq> []
        \<and> (None = (None :: annotation option) \<or> None = Some [])"
    by simp
  have big: "biggest_hole (holes_of [100, 101, 102, 110, 111]) = 7"
    by (simp add: biggest_hole_def holes_of_def)
  have rc: "read_coords False [100, 101, 102, 110, 111] = Inr (''+'', 99, 111, 102)"
    by (simp add: read_coords_def getitem_def)
  note inst = second_start_without_annotation
    [THEN conjunct2, THEN conjunct2, THEN conjunct2, THEN conjunct2, THEN conjunct2,
     rule_format, OF hyp, of 4 metrics_init "[]" "[]"]
  from inst big have "\<exists>metrics' bc strand xlink_pos end_pos middle_pos grouped'.
      process_record 0 None 4 ?r (metrics_init, [], [])
      = Inr (metrics', grouped', [?r])
      \<and> read_coords False [100, 101, 102, 110, 111] = Inr (strand, xlink_pos, end_pos, middle_pos)
      \<and> hits_at grouped' (''chr1'', strand) xlink_pos bc = [(middle_pos, end_pos, 5, 1, 0)]"
    by (simp add: hits_at_def)
  with rc big show ?thesis by blast
qed

text \<open>
  Claim C4 at a contiguous read with an annotation: the holes of the positions 99, 100, 101
  are all zero, and with a segment starting at 100 the second start on the plus strand is
  100, not 0 (it is 0 without the annotation). With one position only there is no hole
  and \<^verbatim>\<open>holes.index\<close> raises.
\<close>

theorem second_start_contiguous_with_annotation:
  "holes_of [99, 100, 101] = [0, 0]
   \<and> second_start read [99, 100, 101] [] ''+'' ''chr1''
        (Some [((''chr1'', ''+''), [(''gene1'', [(''tr1'', [\<lparr>start = 100, stop = 200\<rparr>])])])]) 4
      = Inr (100, [])
   \<and> second_start read [99, 100, 101] [] ''+'' ''chr1'' None 4 = Inr (0, [])
   \<and> second_start read [100] [] ''+'' ''chr1''
        (Some [((''chr1'', ''+''), [(''gene1'', [(''tr1'', [\<lparr>start = 100, stop = 200\<rparr>])])])]) 4
      = Inl ValueError"
  by (simp add: second_start_def Let_def biggest_hole_def holes_of_def getitem_def
      intersects_with_annotaton_def)

subsection \<open>Errors while reading the alignment file\<close>

text \<open>
  A used record without the tag \<^verbatim>\<open>NH\<close> raises, a record that is unmapped or below the
  quality threshold only changes the counters, and an error in the body ends the loop.
\<close>

lemma process_record_nh_missing:
  "\<not> is_unmapped r \<Longrightarrow> \<not> mapq r < mapq_th \<Longrightarrow> nh_tag r = None \<Longrightarrow>
   process_record mapq_th annotation holesize_th r st = Inl NHTagNotSet"
  by (cases st) (simp add: process_record_def Let_def)

lemma process_record_not_used:
  "is_unmapped r \<or> mapq r < mapq_th \<Longrightarrow>
   \<exists>metrics'. process_record mapq_th annotation holesize_th r (metrics, grouped, strange)
      = Inr (metrics', grouped, strange)"
  by (auto simp: process_record_def Let_def)

lemma for_each_abort:
  "for_each body xs s = Inr s' \<Longrightarrow> body x s' = Inl e \<Longrightarrow> for_each body (xs @ x # ys) s = Inl e"
  by (induction xs arbitrary: s) (auto split: sum.splits)

text \<open>
  Claim C9 at records that have the tag \<^verbatim>\<open>NH\<close>: with an annotation, a used record covering
  one position ends the run with the \<^verbatim>\<open>ValueError\<close> of \<^verbatim>\<open>holes.index\<close>, and a used
  record with no position ends it with an \<^verbatim>\<open>IndexError\<close>; a used record without the
  tag ends it as the claim says.
\<close>

theorem processs_bam_file_single_position_aborts:
  "processs_bam_file
     [\<lparr>is_unmapped = False, mapq = 255, nh_tag = Some 1, query_name = ''r1:rbc:AAT'',
       positions = [100], is_reverse = False, reference = ''chr1'', seq_len = 30\<rparr>]
     0 (Some [((''chr1'', ''+''), [(''gene1'', [(''tr1'', [\<lparr>start = 100, stop = 200\<rparr>])])])]) 4
     = Inl ValueError
   \<and> processs_bam_file
     [\<lparr>is_unmapped = False, mapq = 255, nh_tag = Some 1, query_name = ''r1:rbc:AAT'',
       positions = [], is_reverse = False, reference = ''chr1'', seq_len = 30\<rparr>]
     0 None 4
     = Inl IndexError
   \<and> processs_bam_file
     [\<lparr>is_unmapped = False, mapq = 255, nh_tag = None, query_name = ''r1:rbc:AAT'',
       positions = [100], is_reverse = False, reference = ''chr1'', seq_len = 30\<rparr>]
     0 None 4
     = Inl NHTagNotSet"
  by (simp add: processs_bam_file_def process_record_def get_random_barcode_def sublist_code
      prefix_code read_coords_def getitem_def second_start_def holes_of_def biggest_hole_def
      metrics_init_def Let_def)


end
